theory Spec2Isabelle
  imports Main
begin

section \<open>Errors\<close>

text \<open>
  The functions of \<^verbatim>\<open>app.py\<close> work on Python's unbounded integers, modelled as
  \<^typ>\<open>int\<close>. Python's \<^verbatim>\<open>%\<close> and \<^verbatim>\<open>//\<close> are floored, as \<open>mod\<close> and \<open>div\<close> on
  \<^typ>\<open>int\<close> are; they raise \<^verbatim>\<open>ZeroDivisionError\<close> for a zero divisor, where HOL returns
  a value, so every division of the source is guarded in the model. The source raises
  \<^verbatim>\<open>ValueError\<close> with a message; the message is kept.
\<close>

datatype error = ZeroDivisionError | ValueError string

definition NoInverseExists :: error where
  "NoInverseExists = ValueError ''Modular inverse does not exist''"

definition InvalidPrimeInput :: error where
  "InvalidPrimeInput = ValueError ''Both p and q must be prime''"

definition FermatNotPrime :: error where
  "FermatNotPrime = ValueError ''p must be prime''"

definition LengthMismatch :: error where
  "LengthMismatch = ValueError ''Remainders and moduli must have same length''"

section \<open>Modular arithmetic\<close>

definition mod_add :: "int \<Rightarrow> int \<Rightarrow> int \<Rightarrow> error + int" where
  "mod_add a b m =
     (if m = 0 then Inl ZeroDivisionError else Inr (((a + b) mod m + m) mod m))"

definition mod_subtract :: "int \<Rightarrow> int \<Rightarrow> int \<Rightarrow> error + int" where
  "mod_subtract a b m =
     (if m = 0 then Inl ZeroDivisionError else Inr (((a - b) mod m + m) mod m))"

definition mod_multiply :: "int \<Rightarrow> int \<Rightarrow> int \<Rightarrow> error + int" where
  "mod_multiply a b m =
     (if m = 0 then Inl ZeroDivisionError else Inr (((a * b) mod m + m) mod m))"

text \<open>
  The \<^verbatim>\<open>while exp > 0\<close> loop of \<^verbatim>\<open>mod_power\<close>, on the triple of variables it
  updates: \<^verbatim>\<open>result\<close> with the old base, then \<^verbatim>\<open>exp\<close>, then \<^verbatim>\<open>base\<close>. It is
  entered only with \<open>m \<noteq> 0\<close>, since \<^verbatim>\<open>base % m\<close> before it raises otherwise.
\<close>

function mod_power_loop :: "int \<Rightarrow> int \<Rightarrow> int \<Rightarrow> int \<Rightarrow> int" where
  "mod_power_loop result base exp m =
     (if exp > 0
      then mod_power_loop (if exp mod 2 = 1 then (result * base) mod m else result)
             ((base * base) mod m) (exp div 2) m
      else result)"
  by pat_completeness auto
termination
  by (relation "measure (\<lambda>(result, base, exp, m). nat exp)") auto

declare mod_power_loop.simps [simp del]

definition mod_power :: "int \<Rightarrow> int \<Rightarrow> int \<Rightarrow> error + int" where
  "mod_power base exp m =
     (if m = 0 then Inl ZeroDivisionError else Inr (mod_power_loop 1 (base mod m) exp m))"

section \<open>Number theory\<close>

text \<open>The source's \<^verbatim>\<open>gcd\<close>: \<^verbatim>\<open>while b: a, b = b, a % b\<close>.\<close>

function gcd_py :: "int \<Rightarrow> int \<Rightarrow> int" where
  "gcd_py a b = (if b \<noteq> 0 then gcd_py b (a mod b) else a)"
  by pat_completeness auto
termination
  by (relation "measure (\<lambda>(a, b). nat \<bar>b\<bar>)") (auto simp: abs_mod_less)

declare gcd_py.simps [simp del]

function extended_gcd :: "int \<Rightarrow> int \<Rightarrow> int \<times> int \<times> int" where
  "extended_gcd a b =
     (if b = 0 then (a, 1, 0)
      else (case extended_gcd b (a mod b) of
              (gcd_val, x1, y1) \<Rightarrow> (gcd_val, y1, x1 - (a div b) * y1)))"
  by pat_completeness auto
termination
  by (relation "measure (\<lambda>(a, b). nat \<bar>b\<bar>)") (auto simp: abs_mod_less)

declare extended_gcd.simps [simp del]

text \<open>
  \<^verbatim>\<open>mod_inverse\<close> tests the gcd first and reduces modulo \<open>m\<close> afterwards, so with
  \<open>m = 0\<close> it raises the \<^verbatim>\<open>ValueError\<close> unless \<open>a = 1\<close>, and then the reduction
  divides by zero.
\<close>

definition mod_inverse :: "int \<Rightarrow> int \<Rightarrow> error + int" where
  "mod_inverse a m =
     (case extended_gcd a m of
        (gcd_val, x, _) \<Rightarrow>
          if gcd_val \<noteq> 1 then Inl NoInverseExists
          else if m = 0 then Inl ZeroDivisionError
          else Inr ((x mod m + m) mod m))"

section \<open>Ciphers\<close>

text \<open>
  A Python string is a sequence of Unicode code points: a text is a list of code points,
  each a natural number. \<^verbatim>\<open>ord\<close> gives the code point of a character and \<^verbatim>\<open>chr\<close> the
  character of a code point (the source calls it on values in \<open>65..90\<close> only, where
  Python's \<^verbatim>\<open>chr\<close> cannot raise). The comparison \<^verbatim>\<open>'A' <= char <= 'Z'\<close> compares code
  points.
\<close>

type_synonym str = "nat list"

definition ord :: "nat \<Rightarrow> int" where
  "ord c = int c"

definition chr :: "int \<Rightarrow> nat" where
  "chr x = nat x"

definition is_AZ :: "nat \<Rightarrow> bool" where
  "is_AZ c \<longleftrightarrow> ord (of_char CHR ''A'') \<le> ord c \<and> ord c \<le> ord (of_char CHR ''Z'')"

text \<open>
  \<^verbatim>\<open>str.upper\<close> is Unicode-aware. It replaces every character, one by one and whatever
  its neighbours, by its full upper-case mapping in the Unicode character database, which
  is a string of one to three characters (\<open>a\<close> becomes \<open>A\<close>, U+00E9 becomes U+00C9, U+00DF
  becomes \<open>SS\<close>, U+00FF becomes U+0178), and joins the results. The database is not
  part of the repository: its mapping is the parameter \<open>up\<close> of the model, from a code
  point to the code points of its upper-case mapping.
  A number that is no code point never occurs in a text and is taken to map to itself.
\<close>

definition str_upper :: "(nat \<Rightarrow> nat list) \<Rightarrow> str \<Rightarrow> str" where
  "str_upper up text = concat (map up text)"

definition caesar_cipher :: "(nat \<Rightarrow> nat list) \<Rightarrow> str \<Rightarrow> int \<Rightarrow> bool \<Rightarrow> str" where
  "caesar_cipher up text shift decrypt =
     (let s = (if decrypt then (26 - shift) mod 26 else shift mod 26)
      in map (\<lambda>char. if is_AZ char then chr (((ord char - 65 + s) mod 26) + 65) else char)
           (str_upper up text))"

text \<open>
  The loop of \<^verbatim>\<open>vigenere_cipher\<close> over the upper-cased text, with its two variables
  \<^verbatim>\<open>result\<close> and \<^verbatim>\<open>key_index\<close> passed along. Only a letter reads the key:
  \<^verbatim>\<open>key_index % len(key_upper)\<close> raises \<^verbatim>\<open>ZeroDivisionError\<close> for an empty key, and
  the index is in range otherwise.
\<close>

fun vigenere_loop :: "str \<Rightarrow> bool \<Rightarrow> str \<Rightarrow> nat \<Rightarrow> str \<Rightarrow> error + str" where
  "vigenere_loop key_upper decrypt result key_index [] = Inr result"
| "vigenere_loop key_upper decrypt result key_index (char # rest) =
     (if is_AZ char then
        (if length key_upper = 0 then Inl ZeroDivisionError
         else
           let shift0 = ord (key_upper ! (key_index mod length key_upper)) - 65;
               shift = (if decrypt then - shift0 else shift0);
               new_char = chr (((ord char - 65 + shift) mod 26 + 26) mod 26 + 65)
           in vigenere_loop key_upper decrypt (result @ [new_char]) (key_index + 1) rest)
      else vigenere_loop key_upper decrypt (result @ [char]) key_index rest)"

definition vigenere_cipher ::
  "(nat \<Rightarrow> nat list) \<Rightarrow> str \<Rightarrow> str \<Rightarrow> bool \<Rightarrow> error + str" where
  "vigenere_cipher up text key decrypt =
     vigenere_loop (str_upper up key) decrypt [] 0 (str_upper up text)"

text \<open>
  The examples need a mapping to run with. \<open>latin1_upper\<close> is the mapping of
  \<^verbatim>\<open>str.upper\<close> on the code points \<open>0..255\<close>: it changes \<open>a..z\<close>, the micro sign U+00B5
  (to U+039C), the sharp s U+00DF (to \<open>SS\<close>), the letters U+00E0..U+00FE but the division
  sign U+00F7, and U+00FF (to U+0178). The texts of the examples stay within \<open>0..255\<close>,
  and the code points above are left as they are. \<open>codes\<close> turns a string literal into
  the list of its code points.
\<close>

definition latin1_upper :: "nat \<Rightarrow> nat list" where
  "latin1_upper c =
     (if 97 \<le> c \<and> c \<le> 122 then [c - 32]
      else if c = 181 then [924]
      else if c = 223 then [83, 83]
      else if 224 \<le> c \<and> c \<le> 254 \<and> c \<noteq> 247 then [c - 32]
      else if c = 255 then [376]
      else [c])"

definition codes :: "string \<Rightarrow> str" where
  "codes s = map of_char s"

section \<open>Primality test\<close>

text \<open>
  \<^verbatim>\<open>int(math.sqrt(n))\<close> is modelled as the integer part of the exact square root.
  Python computes it in double precision, which gives this value for every \<open>n\<close> below
  \<open>2^52\<close>; the trial division is not meant for larger inputs.
\<close>

function sqrt_search :: "int \<Rightarrow> int \<Rightarrow> int" where
  "sqrt_search r n = (if (r + 1) * (r + 1) \<le> n then sqrt_search (r + 1) n else r)"
  by pat_completeness auto
termination
proof (relation "measure (\<lambda>(r, n). nat (n - r))")
  show "wf (measure (\<lambda>(r, n). nat (n - r)))" by simp
next
  fix r n :: int
  assume le: "(r + 1) * (r + 1) \<le> n"
  have "r + 1 \<le> (r + 1) * (r + 1)"
  proof (cases "r + 1 \<le> 0")
    case True
    then have "r + 1 \<le> 0" "0 \<le> (r + 1) * (r + 1)" by simp_all
    then show ?thesis by linarith
  next
    case False
    then have "1 * (r + 1) \<le> (r + 1) * (r + 1)"
      by (intro mult_right_mono) simp_all
    then show ?thesis by simp
  qed
  with le have "r < n" by linarith
  then show "((r + 1, n), (r, n)) \<in> measure (\<lambda>(r, n). nat (n - r))" by simp
qed

declare sqrt_search.simps [simp del]

definition int_sqrt :: "int \<Rightarrow> int" where
  "int_sqrt n = sqrt_search 0 n"

text \<open>The loop \<^verbatim>\<open>for i in range(3, stop, 2)\<close> of \<^verbatim>\<open>is_prime\<close>.\<close>

function is_prime_loop :: "int \<Rightarrow> int \<Rightarrow> int \<Rightarrow> bool" where
  "is_prime_loop n i stop =
     (if i < stop then (if n mod i = 0 then False else is_prime_loop n (i + 2) stop)
      else True)"
  by pat_completeness auto
termination
  by (relation "measure (\<lambda>(n, i, stop). nat (stop - i))") auto

declare is_prime_loop.simps [simp del]

definition is_prime :: "int \<Rightarrow> bool" where
  "is_prime n =
     (if n < 2 then False
      else if n = 2 then True
      else if n mod 2 = 0 then False
      else is_prime_loop n 3 (int_sqrt n + 1))"

text \<open>The mathematical notion the claims speak of: no divisor strictly between 1 and \<open>p\<close>.\<close>

definition prime_int :: "int \<Rightarrow> bool" where
  "prime_int p \<longleftrightarrow> 2 \<le> p \<and> (\<forall>d\<in>{2..<p}. \<not> d dvd p)"

section \<open>RSA\<close>

text \<open>
  The dictionary returned by \<^verbatim>\<open>generate_rsa_keys\<close>, with its keys \<^verbatim>\<open>n\<close>, \<^verbatim>\<open>e\<close>,
  \<^verbatim>\<open>d\<close> and \<^verbatim>\<open>phi\<close> as the fields \<open>key_n\<close>, \<open>key_e\<close>, \<open>key_d\<close> and \<open>key_phi\<close>.
\<close>

record rsa_keys =
  key_n :: int
  key_e :: int
  key_d :: int
  key_phi :: int

text \<open>
  The search \<^verbatim>\<open>while gcd(e, phi) != 1: e += 2\<close> has no bound in the source (it never
  ends for \<open>phi = 0\<close>), so it is a partial function: \<open>None\<close> stands for a loop that does
  not return.
\<close>

partial_function (option) choose_e :: "int \<Rightarrow> int \<Rightarrow> int option" where
  "choose_e e phi = (if gcd_py e phi \<noteq> 1 then choose_e (e + 2) phi else Some e)"

definition generate_rsa_keys :: "int \<Rightarrow> int \<Rightarrow> (error + rsa_keys) option" where
  "generate_rsa_keys p q =
     (if \<not> is_prime p \<or> \<not> is_prime q then Some (Inl InvalidPrimeInput)
      else
        let n = p * q;
            phi = (p - 1) * (q - 1);
            e0 = (if 65537 \<ge> phi then 3 else 65537)
        in case choose_e e0 phi of
             None \<Rightarrow> None
           | Some e \<Rightarrow>
               (case mod_inverse e phi of
                  Inl err \<Rightarrow> Some (Inl err)
                | Inr d \<Rightarrow> Some (Inr \<lparr>key_n = n, key_e = e, key_d = d, key_phi = phi\<rparr>)))"

definition rsa_encrypt :: "int \<Rightarrow> int \<Rightarrow> int \<Rightarrow> error + int" where
  "rsa_encrypt message e n = mod_power message e n"

definition rsa_decrypt :: "int \<Rightarrow> int \<Rightarrow> int \<Rightarrow> error + int" where
  "rsa_decrypt ciphertext d n = mod_power ciphertext d n"

section \<open>Chinese Remainder Theorem\<close>

text \<open>
  The second loop of \<^verbatim>\<open>chinese_remainder_theorem\<close> runs over the indices of
  \<^verbatim>\<open>moduli\<close> and reads both lists at each index; it is entered only when the lists have
  the same length, so it is a recursion over the two lists side by side, with the sum
  \<^verbatim>\<open>x\<close> passed along. \<^verbatim>\<open>M // moduli[i]\<close> raises for a zero modulus, and
  \<^verbatim>\<open>mod_inverse\<close> raises for a modulus that is not coprime with \<^verbatim>\<open>Mi\<close>.
\<close>

fun crt_loop :: "int \<Rightarrow> int \<Rightarrow> int list \<Rightarrow> int list \<Rightarrow> error + int" where
  "crt_loop M x (r # remainders) (m # moduli) =
     (if m = 0 then Inl ZeroDivisionError
      else case mod_inverse (M div m) m of
             Inl err \<Rightarrow> Inl err
           | Inr yi \<Rightarrow> crt_loop M (x + r * (M div m) * yi) remainders moduli)"
| "crt_loop M x _ _ = Inr x"

definition chinese_remainder_theorem :: "int list \<Rightarrow> int list \<Rightarrow> error + int" where
  "chinese_remainder_theorem remainders moduli =
     (if length remainders \<noteq> length moduli then Inl LengthMismatch
      else
        let M = foldl (\<lambda>M m. M * m) 1 moduli
        in case crt_loop M 0 remainders moduli of
             Inl err \<Rightarrow> Inl err
           | Inr x \<Rightarrow> if M = 0 then Inl ZeroDivisionError else Inr (x mod M))"

text \<open>
  The endpoint \<^verbatim>\<open>crt_solve\<close> returns the result together with the product of the
  moduli, which it computes again.
\<close>

definition crt_solve :: "int list \<Rightarrow> int list \<Rightarrow> error + int \<times> int" where
  "crt_solve remainders moduli =
     (case chinese_remainder_theorem remainders moduli of
        Inl err \<Rightarrow> Inl err
      | Inr result \<Rightarrow> Inr (result, foldl (\<lambda>M m. M * m) 1 moduli))"

text \<open>Moduli that are coprime in pairs, with the source's \<^verbatim>\<open>gcd\<close>.\<close>

fun pairwise_coprime :: "int list \<Rightarrow> bool" where
  "pairwise_coprime [] = True"
| "pairwise_coprime (m # ms) = ((\<forall>k\<in>set ms. gcd_py k m = 1) \<and> pairwise_coprime ms)"

text \<open>The inverse that \<^verbatim>\<open>mod_inverse\<close> returns, where it returns one.\<close>

definition inverse_of :: "int \<Rightarrow> int \<Rightarrow> int" where
  "inverse_of a m = (case mod_inverse a m of Inr y \<Rightarrow> y | Inl _ \<Rightarrow> 0)"

section \<open>Fermat's Little Theorem\<close>

text \<open>
  The returned dictionary has the keys \<^verbatim>\<open>result\<close> and \<^verbatim>\<open>steps\<close>, and each step the
  keys \<^verbatim>\<open>exponent\<close> and \<^verbatim>\<open>result\<close>.
\<close>

record fermat_step =
  step_exponent :: int
  step_result :: int

record fermat_trial =
  fermat_result :: int
  fermat_steps :: "fermat_step list"

text \<open>
  The loop \<^verbatim>\<open>for i in range(1, max_steps + 1)\<close>, over the list of its exponents; a
  failing \<^verbatim>\<open>mod_power\<close> would end it.
\<close>

fun collect_steps :: "int \<Rightarrow> int \<Rightarrow> int list \<Rightarrow> error + fermat_step list" where
  "collect_steps a p [] = Inr []"
| "collect_steps a p (i # rest) =
     (case mod_power a i p of
        Inl err \<Rightarrow> Inl err
      | Inr r \<Rightarrow>
          (case collect_steps a p rest of
             Inl err \<Rightarrow> Inl err
           | Inr steps \<Rightarrow> Inr (\<lparr>step_exponent = i, step_result = r\<rparr> # steps)))"

definition fermat_little_theorem :: "int \<Rightarrow> int \<Rightarrow> error + fermat_trial" where
  "fermat_little_theorem a p =
     (if \<not> is_prime p then Inl FermatNotPrime
      else case mod_power a (p - 1) p of
             Inl err \<Rightarrow> Inl err
           | Inr result \<Rightarrow>
               (let max_steps = min 10 (p - 1)
                in case collect_steps a p [1..max_steps] of
                     Inl err \<Rightarrow> Inl err
                   | Inr steps \<Rightarrow> Inr \<lparr>fermat_result = result, fermat_steps = steps\<rparr>))"

section \<open>Properties of the modular operations\<close>

lemma mod_add_range: "0 < m \<Longrightarrow> \<exists>r. mod_add a b m = Inr r \<and> 0 \<le> r \<and> r < m"
  by (simp add: mod_add_def)

lemma mod_subtract_range: "0 < m \<Longrightarrow> \<exists>r. mod_subtract a b m = Inr r \<and> 0 \<le> r \<and> r < m"
  by (simp add: mod_subtract_def)

lemma mod_multiply_range: "0 < m \<Longrightarrow> \<exists>r. mod_multiply a b m = Inr r \<and> 0 \<le> r \<and> r < m"
  by (simp add: mod_multiply_def)

lemma mod_power_loop_nonpos: "exp \<le> 0 \<Longrightarrow> mod_power_loop r b exp m = r"
  by (simp add: mod_power_loop.simps)

lemma mod_power_loop_eq:
  "0 < exp \<Longrightarrow> mod_power_loop r b exp m = (r * b ^ nat exp) mod m"
proof (induction r b exp m rule: mod_power_loop.induct)
  case (1 result base exp m)
  let ?r = "if exp mod 2 = 1 then (result * base) mod m else result"
  let ?b = "(base * base) mod m"
  have unfold: "mod_power_loop result base exp m = mod_power_loop ?r ?b (exp div 2) m"
    using "1.prems" by (subst mod_power_loop.simps) simp
  have expand: "exp = 2 * (exp div 2) + exp mod 2" by simp
  show ?case
  proof (cases "exp div 2 > 0")
    case False
    with "1.prems" have e1: "exp = 1" by presburger
    show ?thesis
      unfolding unfold by (simp add: e1 mod_power_loop_nonpos)
  next
    case True
    have IH: "mod_power_loop ?r ?b (exp div 2) m = (?r * ?b ^ nat (exp div 2)) mod m"
      using "1.IH" [OF "1.prems" True] .
    have sq: "(?b ^ nat (exp div 2)) mod m = (base ^ (2 * nat (exp div 2))) mod m"
      by (simp add: power_mult power2_eq_square power_mod)
    show ?thesis
    proof (cases "exp mod 2 = 1")
      case odd: True
      have n: "nat exp = Suc (2 * nat (exp div 2))"
        using odd True expand by linarith
      have "(?r * ?b ^ nat (exp div 2)) mod m
          = ((result * base) mod m * ((?b ^ nat (exp div 2)) mod m)) mod m"
        using odd by (simp add: mod_mult_right_eq)
      also have "\<dots> = (result * base * base ^ (2 * nat (exp div 2))) mod m"
        unfolding sq by (simp add: mod_mult_eq)
      also have "\<dots> = (result * base ^ nat exp) mod m"
        unfolding n by (simp add: mult.assoc)
      finally show ?thesis unfolding unfold IH .
    next
      case even: False
      then have ev: "exp mod 2 = 0" by presburger
      have n: "nat exp = 2 * nat (exp div 2)"
        using ev True expand by linarith
      have "(?r * ?b ^ nat (exp div 2)) mod m
          = (result * ((?b ^ nat (exp div 2)) mod m)) mod m"
        using even by (simp add: mod_mult_right_eq)
      also have "\<dots> = (result * base ^ nat exp) mod m"
        unfolding sq n by (simp add: mod_mult_right_eq)
      finally show ?thesis unfolding unfold IH .
    qed
  qed
qed

lemma mod_power_pos:
  "m \<noteq> 0 \<Longrightarrow> 0 < exp \<Longrightarrow> mod_power base exp m = Inr (base ^ nat exp mod m)"
  by (simp add: mod_power_def mod_power_loop_eq power_mod)

lemma mod_power_range:
  "0 < m \<Longrightarrow> 0 < exp \<Longrightarrow> \<exists>r. mod_power base exp m = Inr r \<and> 0 \<le> r \<and> r < m"
  by (simp add: mod_power_pos)

lemma mod_power_range_modulus_gt_one:
  assumes "1 < m"
  shows "\<exists>r. mod_power base exp m = Inr r \<and> 0 \<le> r \<and> r < m"
proof (cases "0 < exp")
  case True
  with assms show ?thesis by (simp add: mod_power_pos)
next
  case False
  with assms show ?thesis by (simp add: mod_power_def mod_power_loop_nonpos)
qed

section \<open>Properties of the gcd functions and of the inverse\<close>

lemma gcd_py_pos: "0 < b \<Longrightarrow> gcd_py a b = gcd a b"
proof (induction a b rule: gcd_py.induct)
  case (1 a b)
  show ?case
  proof (cases "a mod b = 0")
    case True
    then have "b dvd a" by auto
    then have "gcd a b = b" using "1.prems" by (simp add: gcd.commute gcd_proj1_iff)
    moreover have "gcd_py a b = b"
      using "1.prems" True by (simp add: gcd_py.simps [of a b] gcd_py.simps [of b 0])
    ultimately show ?thesis by simp
  next
    case False
    then have "0 < a mod b" using "1.prems" by (simp add: less_le)
    then have "gcd_py b (a mod b) = gcd b (a mod b)" using "1.IH" "1.prems" by simp
    then show ?thesis
      using "1.prems" by (simp add: gcd_py.simps [of a b] gcd.commute [of a b] gcd_red_int [symmetric])
  qed
qed

lemma extended_gcd_bezout: "extended_gcd a b = (g, x, y) \<Longrightarrow> a * x + b * y = g"
proof (induction a b arbitrary: g x y rule: extended_gcd.induct)
  case (1 a b)
  show ?case
  proof (cases "b = 0")
    case True
    with "1.prems" show ?thesis by (simp add: extended_gcd.simps [of a 0])
  next
    case False
    obtain g' x1 y1 where sub: "extended_gcd b (a mod b) = (g', x1, y1)"
      by (cases "extended_gcd b (a mod b)") auto
    from "1.IH" [OF False sub] have ih: "b * x1 + (a mod b) * y1 = g'" .
    from "1.prems" False sub have res: "g = g'" "x = y1" "y = x1 - (a div b) * y1"
      by (auto simp: extended_gcd.simps [of a b])
    have "a * y1 + b * (x1 - (a div b) * y1) = b * x1 + (a - b * (a div b)) * y1"
      by (simp add: algebra_simps)
    also have "a - b * (a div b) = a mod b"
      by (simp add: minus_mult_div_eq_mod)
    finally show ?thesis using ih res by simp
  qed
qed

lemma extended_gcd_fst: "0 < b \<Longrightarrow> fst (extended_gcd a b) = gcd a b"
proof (induction a b rule: extended_gcd.induct)
  case (1 a b)
  have nz: "b \<noteq> 0" using "1.prems" by simp
  have step: "fst (extended_gcd a b) = fst (extended_gcd b (a mod b))"
    using nz by (simp add: extended_gcd.simps [of a b] split: prod.splits)
  show ?case
  proof (cases "a mod b = 0")
    case True
    then have "b dvd a" by auto
    then have "gcd a b = b" using "1.prems" by (simp add: gcd.commute gcd_proj1_iff)
    moreover have "fst (extended_gcd b (a mod b)) = b"
      using True by (simp add: extended_gcd.simps [of b 0])
    ultimately show ?thesis using step by simp
  next
    case False
    then have "0 < a mod b" using "1.prems" by (simp add: less_le)
    then have "fst (extended_gcd b (a mod b)) = gcd b (a mod b)" using "1.IH" [OF nz] by simp
    then show ?thesis
      using step by (simp add: gcd.commute [of a b] gcd_red_int [symmetric])
  qed
qed

lemma mod_inverse_fails_iff:
  assumes "0 < m"
  shows "mod_inverse a m = Inl NoInverseExists \<longleftrightarrow> gcd a m \<noteq> 1"
  using assms extended_gcd_fst [OF assms, of a]
  by (auto simp: mod_inverse_def split: prod.splits)

lemma mod_inverse_coprime:
  assumes "0 < m" "gcd a m = 1"
  shows "\<exists>x. mod_inverse a m = Inr x \<and> 0 \<le> x \<and> x < m \<and> (a * x) mod m = 1 mod m"
proof -
  obtain g x y where eg: "extended_gcd a m = (g, x, y)"
    by (cases "extended_gcd a m") auto
  have g1: "g = 1" using extended_gcd_fst [OF assms(1), of a] eg assms(2) by simp
  have bez: "a * x + m * y = 1" using extended_gcd_bezout [OF eg] g1 by simp
  let ?r = "(x mod m + m) mod m"
  have res: "mod_inverse a m = Inr ?r"
    using eg g1 assms(1) by (simp add: mod_inverse_def)
  have "(a * ?r) mod m = (a * x) mod m"
    by (simp add: mod_mult_right_eq)
  also have "\<dots> = (a * x + m * y) mod m" by simp
  also have "\<dots> = 1 mod m" using bez by simp
  finally have "(a * ?r) mod m = 1 mod m" .
  moreover have "0 \<le> ?r" "?r < m" using assms(1) by simp_all
  ultimately show ?thesis using res by blast
qed

section \<open>Claims about the modular operations and the inverse\<close>

text \<open>
  C1 (range of the four operations). Addition, subtraction and multiplication return a
  value in \<open>[0, m)\<close> for every \<open>m > 0\<close> (\<open>mod_add_range\<close>, \<open>mod_subtract_range\<close>,
  \<open>mod_multiply_range\<close>), and so does \<^verbatim>\<open>mod_power\<close> for every positive exponent
  (\<open>mod_power_range\<close>). With exponent \<open>0\<close> the loop body never runs and the initial
  \<^verbatim>\<open>result = 1\<close> is returned as it is, not reduced modulo \<open>m\<close>: for \<open>m = 1\<close> the
  value \<open>1\<close> lies outside \<open>[0, 1)\<close>, although the function's docstring promises
  \<^verbatim>\<open>base^exp mod m\<close>, which is \<open>0\<close> there.
\<close>

theorem mod_power_out_of_range_at_modulus_one:
  "mod_power 5 0 1 = Inr 1 \<and> \<not> (\<exists>r. mod_power 5 0 1 = Inr r \<and> 0 \<le> r \<and> r < 1)"
  by (simp add: mod_power_def mod_power_loop_nonpos)

lemma mod_power_zero_exp: "1 < m \<Longrightarrow> mod_power b 0 m = Inr (1 mod m)"
  by (simp add: mod_power_def mod_power_loop_nonpos)

text \<open>
  C5 (exponent zero). \<^verbatim>\<open>mod_power(b, 0, m)\<close> is \<open>1\<close>, which is \<open>1 mod m\<close> for every
  \<open>m > 1\<close> (\<open>mod_power_zero_exp\<close>) but not for \<open>m = 1\<close>, where \<open>1 mod 1 = 0\<close>: the same
  unreduced initial result that leaves the range \<open>[0, m)\<close>.
\<close>

theorem mod_power_zero_exp_modulus_one:
  "mod_power 7 0 1 = Inr 1 \<and> mod_power 7 0 1 \<noteq> Inr (1 mod 1)"
  by (simp add: mod_power_def mod_power_loop_nonpos)

text \<open>
  C10 (non-positive exponents). For every base, every modulus \<open>m \<noteq> 0\<close> and every exponent
  \<open>exp \<le> 0\<close>, \<^verbatim>\<open>mod_power\<close> returns \<open>1\<close>: the loop guard \<^verbatim>\<open>exp > 0\<close> fails at once,
  and no error is raised for a negative exponent.
\<close>

theorem mod_power_nonpositive_exp:
  "m \<noteq> 0 \<Longrightarrow> exp \<le> 0 \<Longrightarrow> mod_power base exp m = Inr 1"
  by (simp add: mod_power_def mod_power_loop_nonpos)

theorem mod_power_nonpositive_exp_witness:
  "(7::int) \<noteq> 0 \<and> (-3::int) \<le> 0 \<and> mod_power 2 (-3) 7 = Inr 1"
  using mod_power_nonpositive_exp [of 7 "-3" 2] by simp

text \<open>
  C4 (modular inverse). For \<open>m > 0\<close>, \<^verbatim>\<open>mod_inverse(a, m)\<close> raises the "no inverse"
  \<^verbatim>\<open>ValueError\<close> exactly when the source's \<^verbatim>\<open>gcd(a, m)\<close> is not \<open>1\<close>; when it is
  \<open>1\<close>, the inverse is returned, lies in \<open>[0, m)\<close>, and \<^verbatim>\<open>mod_multiply\<close> of \<open>a\<close> and
  the inverse is \<open>1 mod m\<close>. That product is \<open>1\<close> for \<open>m > 1\<close>, and \<open>0\<close> for \<open>m = 1\<close>,
  where every \<open>a\<close> is coprime with \<open>m\<close> and \<open>[0, 1)\<close> does not contain \<open>1\<close>.
\<close>

theorem mod_inverse_spec:
  assumes "0 < m"
  shows "(mod_inverse a m = Inl NoInverseExists \<longleftrightarrow> gcd_py a m \<noteq> 1) \<and>
         (gcd_py a m = 1 \<longrightarrow>
            (\<exists>x. mod_inverse a m = Inr x \<and> 0 \<le> x \<and> x < m \<and>
                 mod_multiply a x m = Inr (1 mod m)))"
proof -
  have g: "gcd_py a m = gcd a m" using assms by (rule gcd_py_pos)
  have fails: "mod_inverse a m = Inl NoInverseExists \<longleftrightarrow> gcd_py a m \<noteq> 1"
    unfolding g using assms by (rule mod_inverse_fails_iff)
  have works: "\<exists>x. mod_inverse a m = Inr x \<and> 0 \<le> x \<and> x < m \<and>
                 mod_multiply a x m = Inr (1 mod m)" if "gcd_py a m = 1"
  proof -
    from that g have "gcd a m = 1" by simp
    from mod_inverse_coprime [OF assms this] obtain x
      where x: "mod_inverse a m = Inr x" "0 \<le> x" "x < m" "(a * x) mod m = 1 mod m"
      by blast
    have "mod_multiply a x m = Inr (1 mod m)"
      using assms x(4) by (simp add: mod_multiply_def)
    with x show ?thesis by blast
  qed
  from fails works show ?thesis by blast
qed

theorem mod_inverse_spec_witness:
  "0 < (7::int) \<and> gcd_py 3 7 = 1 \<and> mod_inverse 3 7 \<noteq> Inl NoInverseExists \<and>
   (\<exists>x. mod_inverse 3 7 = Inr x \<and> 0 \<le> x \<and> x < 7 \<and> mod_multiply 3 x 7 = Inr 1)"
proof -
  have pos: "0 < (7::int)" by simp
  have g: "gcd_py 3 7 = 1" by (simp add: gcd_py.simps)
  from mod_inverse_spec [OF pos, of 3] g show ?thesis by simp
qed

text \<open>
  With \<open>m = 1\<close> the product of \<open>a\<close> and its inverse is \<open>0\<close>, not \<open>1\<close>: the stronger statement
  with \<open>== 1\<close> fails at \<open>a = 0\<close>, \<open>m = 1\<close>.
\<close>

theorem mod_inverse_no_unit_at_modulus_one:
  "0 < (1::int) \<and> gcd_py 0 1 = 1 \<and> mod_inverse 0 1 = Inr 0 \<and> mod_multiply 0 0 1 \<noteq> Inr 1"
  by (simp add: gcd_py.simps mod_inverse_def extended_gcd.simps mod_multiply_def)

section \<open>Properties of the ciphers\<close>

lemma ord_chr: "0 \<le> x \<Longrightarrow> ord (chr x) = x"
  by (simp add: ord_def chr_def)

lemma chr_ord: "chr (ord c) = c"
  by (simp add: ord_def chr_def)

lemma is_AZ_iff: "is_AZ c \<longleftrightarrow> 65 \<le> ord c \<and> ord c \<le> 90"
  by (simp add: is_AZ_def ord_def)

lemma is_AZ_nat: "is_AZ c \<longleftrightarrow> 65 \<le> c \<and> c \<le> 90"
  by (simp add: is_AZ_def ord_def)

text \<open>
  What the round trips need of the upper-case mapping, and Python's has: a mapping is
  never empty, and upper-casing twice is upper-casing once. Then every character of an
  upper-cased text is mapped to itself.
\<close>

lemma length_concat_nonempty:
  assumes "\<forall>x\<in>set xs. f x \<noteq> []"
  shows "length xs \<le> length (concat (map f xs))"
  using assms
proof (induction xs)
  case Nil
  show ?case by simp
next
  case (Cons x xs)
  then have "1 \<le> length (f x)" "length xs \<le> length (concat (map f xs))"
    by (simp_all add: Suc_le_eq)
  then show ?case by simp
qed

lemma concat_map_fixed:
  assumes "\<forall>x\<in>set xs. f x \<noteq> []" "concat (map f xs) = xs"
  shows "\<forall>x\<in>set xs. f x = [x]"
  using assms
proof (induction xs)
  case Nil
  show ?case by simp
next
  case (Cons x xs)
  have ne: "f x \<noteq> []" and rest: "\<forall>y\<in>set xs. f y \<noteq> []" using Cons.prems(1) by simp_all
  have eq: "f x @ concat (map f xs) = x # xs" using Cons.prems(2) by simp
  have "length (f x) + length (concat (map f xs)) = Suc (length xs)"
    using arg_cong [OF eq, of length] by simp
  moreover have "length xs \<le> length (concat (map f xs))"
    using rest by (rule length_concat_nonempty)
  moreover have "1 \<le> length (f x)" using ne by (simp add: Suc_le_eq)
  ultimately have "length (f x) = 1" by linarith
  then obtain y where y: "f x = [y]" by (cases "f x") auto
  with eq have "y = x" "concat (map f xs) = xs" by simp_all
  with y Cons.IH [OF rest] show ?case by simp
qed

lemma upper_fixed:
  assumes ne: "\<forall>c. up c \<noteq> []" and idem: "\<forall>c. concat (map up (up c)) = up c"
    and d: "d \<in> set (str_upper up text)"
  shows "up d = [d]"
proof -
  from d obtain c where c: "d \<in> set (up c)" by (auto simp: str_upper_def)
  have "\<forall>x\<in>set (up c). up x = [x]"
    using ne idem by (intro concat_map_fixed) simp_all
  with c show ?thesis by blast
qed

lemma str_upper_fixed:
  assumes "\<forall>c\<in>set xs. up c = [c]"
  shows "str_upper up xs = xs"
  using assms by (induction xs) (simp_all add: str_upper_def)

lemma str_upper_nonempty:
  assumes "\<forall>c. up c \<noteq> []" "key \<noteq> []"
  shows "str_upper up key \<noteq> []"
  using assms by (cases key) (simp_all add: str_upper_def)

text \<open>The ring shift of both ciphers: a letter goes to a letter.\<close>

lemma shift_letter:
  assumes "0 \<le> k" "k < 26"
  shows "is_AZ (chr (k + 65))" "ord (chr (k + 65)) = k + 65"
  using assms by (simp_all add: is_AZ_iff ord_chr)

lemma letter_restore:
  assumes "is_AZ c"
  shows "chr ((ord c - 65) mod 26 + 65) = c"
proof -
  have "0 \<le> ord c - 65" "ord c - 65 < 26" using assms by (simp_all add: is_AZ_iff)
  then have "(ord c - 65) mod 26 = ord c - 65" by simp
  then show ?thesis by (simp add: chr_ord)
qed

lemma caesar_char_round_trip:
  fixes shift :: int
  assumes AZ: "\<forall>c. 65 \<le> c \<and> c \<le> 90 \<longrightarrow> up c = [c]" and c: "up c = [c]"
  defines "e \<equiv> (if is_AZ c then chr (((ord c - 65 + shift mod 26) mod 26) + 65) else c)"
  shows "up e = [e]"
    and "(if is_AZ e then chr (((ord e - 65 + (26 - shift) mod 26) mod 26) + 65) else e) = c"
proof -
  show "up e = [e]"
  proof (cases "is_AZ c")
    case True
    then have "is_AZ e" unfolding e_def by (simp add: shift_letter)
    then show ?thesis using AZ by (simp add: is_AZ_nat)
  next
    case False
    then show ?thesis using c by (simp add: e_def)
  qed
  show "(if is_AZ e then chr (((ord e - 65 + (26 - shift) mod 26) mod 26) + 65) else e) = c"
  proof (cases "is_AZ c")
    case True
    let ?k = "(ord c - 65 + shift mod 26) mod 26"
    have e: "e = chr (?k + 65)" using True by (simp add: e_def)
    have az: "is_AZ e" and oe: "ord e = ?k + 65"
      unfolding e by (simp_all add: shift_letter)
    have "(ord e - 65 + (26 - shift) mod 26) mod 26 = (ord c - 65) mod 26"
      unfolding oe by (simp add: mod_simps)
    then show ?thesis using az True by (simp add: letter_restore)
  next
    case False
    then show ?thesis by (simp add: e_def)
  qed
qed

lemma caesar_round_trip:
  assumes AZ: "\<forall>c. 65 \<le> c \<and> c \<le> 90 \<longrightarrow> up c = [c]"
    and ne: "\<forall>c. up c \<noteq> []" and idem: "\<forall>c. concat (map up (up c)) = up c"
  shows "caesar_cipher up (caesar_cipher up text shift False) shift True = str_upper up text"
proof -
  let ?enc = "\<lambda>c. if is_AZ c then chr (((ord c - 65 + shift mod 26) mod 26) + 65) else c"
  let ?dec = "\<lambda>c. if is_AZ c then chr (((ord c - 65 + (26 - shift) mod 26) mod 26) + 65) else c"
  have fixed: "up c = [c]" if "c \<in> set (str_upper up text)" for c
    using ne idem that by (rule upper_fixed)
  have enc: "caesar_cipher up text shift False = map ?enc (str_upper up text)"
    by (simp add: caesar_cipher_def)
  have upe: "str_upper up (map ?enc (str_upper up text)) = map ?enc (str_upper up text)"
  proof (rule str_upper_fixed, rule ballI)
    fix e assume "e \<in> set (map ?enc (str_upper up text))"
    then obtain c where c: "c \<in> set (str_upper up text)" "e = ?enc c" by auto
    show "up e = [e]"
      unfolding c(2) using AZ fixed [OF c(1)] by (rule caesar_char_round_trip(1))
  qed
  have "caesar_cipher up (map ?enc (str_upper up text)) shift True
      = map ?dec (map ?enc (str_upper up text))"
    unfolding caesar_cipher_def Let_def upe by simp
  also have "\<dots> = str_upper up text"
    unfolding map_map
  proof (rule map_idI)
    fix c assume "c \<in> set (str_upper up text)"
    then have "up c = [c]" by (rule fixed)
    with AZ show "(?dec \<circ> ?enc) c = c"
      unfolding comp_def by (rule caesar_char_round_trip(2))
  qed
  finally show ?thesis unfolding enc .
qed

text \<open>Vigenere: encryption with any non-empty key, and decryption of its output.\<close>

lemma vigenere_char_round_trip:
  fixes k :: int
  assumes "is_AZ c"
  defines "e \<equiv> chr (((ord c - 65 + k) mod 26 + 26) mod 26 + 65)"
  shows "is_AZ e" and "chr (((ord e - 65 + (- k)) mod 26 + 26) mod 26 + 65) = c"
proof -
  let ?j = "((ord c - 65 + k) mod 26 + 26) mod 26"
  have j: "0 \<le> ?j" "?j < 26" by simp_all
  show "is_AZ e" unfolding e_def using j by (rule shift_letter(1))
  have oe: "ord e = ?j + 65" unfolding e_def using j by (rule shift_letter(2))
  have "((ord e - 65 + (- k)) mod 26 + 26) mod 26 = (ord c - 65) mod 26"
    unfolding oe by (simp add: mod_simps)
  then show "chr (((ord e - 65 + (- k)) mod 26 + 26) mod 26 + 65) = c"
    using assms(1) by (simp add: letter_restore)
qed

lemma vigenere_loop_round_trip:
  assumes "K \<noteq> []"
  shows "\<exists>out. vigenere_loop K False acc ki cs = Inr (acc @ out) \<and>
               (\<forall>c\<in>set out. is_AZ c \<or> c \<in> set cs) \<and>
               (\<forall>acc'. vigenere_loop K True acc' ki out = Inr (acc' @ cs))"
proof (induction cs arbitrary: acc ki)
  case Nil
  show ?case by (rule exI [of _ "[]"]) simp
next
  case (Cons c cs)
  have len: "length K \<noteq> 0" using assms by simp
  show ?case
  proof (cases "is_AZ c")
    case True
    let ?k = "ord (K ! (ki mod length K)) - 65"
    let ?e = "chr (((ord c - 65 + ?k) mod 26 + 26) mod 26 + 65)"
    from Cons.IH [of "acc @ [?e]" "ki + 1"] obtain out where
      out: "vigenere_loop K False (acc @ [?e]) (ki + 1) cs = Inr ((acc @ [?e]) @ out)"
           "\<forall>c\<in>set out. is_AZ c \<or> c \<in> set cs"
           "\<forall>acc'. vigenere_loop K True acc' (ki + 1) out = Inr (acc' @ cs)"
      by blast
    have e_az: "is_AZ ?e" and e_back: "chr (((ord ?e - 65 + (- ?k)) mod 26 + 26) mod 26 + 65) = c"
      using vigenere_char_round_trip [OF True, of ?k] by simp_all
    have enc: "vigenere_loop K False acc ki (c # cs) = Inr (acc @ ?e # out)"
      using True len out(1) by simp
    have up: "\<forall>x\<in>set (?e # out). is_AZ x \<or> x \<in> set (c # cs)"
      using out(2) e_az by auto
    have dec: "vigenere_loop K True acc' ki (?e # out) = Inr (acc' @ c # cs)" for acc'
    proof -
      have "vigenere_loop K True acc' ki (?e # out)
          = vigenere_loop K True (acc' @ [chr (((ord ?e - 65 + (- ?k)) mod 26 + 26) mod 26 + 65)]) (ki + 1) out"
        using e_az len by simp
      also have "\<dots> = Inr ((acc' @ [c]) @ cs)"
        unfolding e_back using out(3) by blast
      finally show ?thesis by simp
    qed
    from enc up dec show ?thesis by blast
  next
    case False
    from Cons.IH [of "acc @ [c]" ki] obtain out where
      out: "vigenere_loop K False (acc @ [c]) ki cs = Inr ((acc @ [c]) @ out)"
           "\<forall>c\<in>set out. is_AZ c \<or> c \<in> set cs"
           "\<forall>acc'. vigenere_loop K True acc' ki out = Inr (acc' @ cs)"
      by blast
    have enc: "vigenere_loop K False acc ki (c # cs) = Inr (acc @ c # out)"
      using False out(1) by simp
    have up: "\<forall>x\<in>set (c # out). is_AZ x \<or> x \<in> set (c # cs)"
      using out(2) by auto
    have dec: "vigenere_loop K True acc' ki (c # out) = Inr (acc' @ c # cs)" for acc'
      using False out(3) by simp
    from enc up dec show ?thesis by blast
  qed
qed

lemma vigenere_round_trip:
  assumes AZ: "\<forall>c. 65 \<le> c \<and> c \<le> 90 \<longrightarrow> up c = [c]"
    and ne: "\<forall>c. up c \<noteq> []" and idem: "\<forall>c. concat (map up (up c)) = up c"
    and key: "key \<noteq> []"
  shows "\<exists>c. vigenere_cipher up text key False = Inr c \<and>
             vigenere_cipher up c key True = Inr (str_upper up text)"
proof -
  have K: "str_upper up key \<noteq> []" using ne key by (rule str_upper_nonempty)
  from vigenere_loop_round_trip [OF K, of "[]" 0 "str_upper up text"] obtain out where
    out: "vigenere_loop (str_upper up key) False [] 0 (str_upper up text) = Inr out"
         "\<forall>c\<in>set out. is_AZ c \<or> c \<in> set (str_upper up text)"
         "\<forall>acc'. vigenere_loop (str_upper up key) True acc' 0 out
                   = Inr (acc' @ str_upper up text)"
    by auto
  have "\<forall>c\<in>set out. up c = [c]"
  proof
    fix c assume "c \<in> set out"
    with out(2) have "is_AZ c \<or> c \<in> set (str_upper up text)" by blast
    then show "up c = [c]"
    proof
      assume "is_AZ c"
      with AZ show ?thesis by (simp add: is_AZ_nat)
    next
      assume "c \<in> set (str_upper up text)"
      with ne idem show ?thesis by (rule upper_fixed)
    qed
  qed
  then have up: "str_upper up out = out" by (rule str_upper_fixed)
  have "vigenere_cipher up out key True = Inr (str_upper up text)"
    unfolding vigenere_cipher_def up using out(3) by simp
  with out(1) show ?thesis by (simp add: vigenere_cipher_def)
qed

lemma vigenere_loop_empty_key:
  "vigenere_loop [] decrypt acc ki cs =
     (if \<exists>c\<in>set cs. is_AZ c then Inl ZeroDivisionError else Inr (acc @ cs))"
  by (induction cs arbitrary: acc ki) simp_all

text \<open>\<open>latin1_upper\<close> has the three properties.\<close>

lemma latin1_upper_AZ: "65 \<le> c \<and> c \<le> 90 \<Longrightarrow> latin1_upper c = [c]"
  by (simp add: latin1_upper_def)

lemma latin1_upper_nonempty: "latin1_upper c \<noteq> []"
  by (simp add: latin1_upper_def)

lemma latin1_upper_idem: "concat (map latin1_upper (latin1_upper c)) = latin1_upper c"
  by (auto simp: latin1_upper_def)

section \<open>Claims about the ciphers\<close>

lemma caesar_examples:
  "caesar_cipher latin1_upper (codes ''HELLO'') 3 False = codes ''KHOOR''"
  "caesar_cipher latin1_upper (codes ''KHOOR'') 3 True = codes ''HELLO''"
  "caesar_cipher latin1_upper [223] 1 False = codes ''TT''"
  by (simp_all add: caesar_cipher_def str_upper_def latin1_upper_def is_AZ_def ord_def
      chr_def codes_def)

lemma vigenere_examples:
  "vigenere_cipher latin1_upper (codes ''HELLO'') (codes ''KEY'') False = Inr (codes ''RIJVS'')"
  "vigenere_cipher latin1_upper (codes ''AAA'') [233] False = Inr (codes ''GGG'')"
  "vigenere_cipher latin1_upper [223] [] False = Inl ZeroDivisionError"
  by (simp_all add: vigenere_cipher_def str_upper_def latin1_upper_def is_AZ_def ord_def
      chr_def codes_def)

text \<open>
  C7 (round trips). Decrypting a Caesar encryption with the same shift gives back the
  upper-cased text, for every text and every integer shift; and for every non-empty key
  (alphabetic or not) the Vigenere encryption succeeds and its decryption with the same
  key gives back the upper-cased text. The texts are arbitrary Unicode strings. The three
  assumptions are facts of the Unicode upper-case mapping that \<^verbatim>\<open>str.upper\<close> applies:
  \<open>A..Z\<close> are their own upper case, no mapping is empty, and upper-casing twice is
  upper-casing once. The witness runs the text \<open>Gr\<close> U+00FC U+00DF \<open>e\<close>, whose upper case
  is longer than the text.
\<close>

theorem cipher_round_trip:
  assumes "\<forall>c. 65 \<le> c \<and> c \<le> 90 \<longrightarrow> up c = [c]"
    and "\<forall>c. up c \<noteq> []"
    and "\<forall>c. concat (map up (up c)) = up c"
  shows "caesar_cipher up (caesar_cipher up text shift False) shift True = str_upper up text \<and>
         (key \<noteq> [] \<longrightarrow>
            (\<exists>c. vigenere_cipher up text key False = Inr c \<and>
                 vigenere_cipher up c key True = Inr (str_upper up text)))"
  using caesar_round_trip [OF assms] vigenere_round_trip [OF assms] by blast

theorem cipher_round_trip_witness:
  "\<not> (\<exists>c. 65 \<le> c \<and> c \<le> 90 \<and> latin1_upper c \<noteq> [c]) \<and>
   (\<forall>c. latin1_upper c \<noteq> []) \<and>
   (\<forall>c. concat (map latin1_upper (latin1_upper c)) = latin1_upper c) \<and>
   codes ''Key'' \<noteq> [] \<and>
   str_upper latin1_upper [71, 114, 252, 223, 101] = [71, 82, 220, 83, 83, 69] \<and>
   caesar_cipher latin1_upper (caesar_cipher latin1_upper [71, 114, 252, 223, 101] 3 False) 3 True
     = [71, 82, 220, 83, 83, 69] \<and>
   (\<exists>c. vigenere_cipher latin1_upper [71, 114, 252, 223, 101] (codes ''Key'') False = Inr c \<and>
        vigenere_cipher latin1_upper c (codes ''Key'') True = Inr [71, 82, 220, 83, 83, 69])"
proof -
  have AZ: "\<forall>c. 65 \<le> c \<and> c \<le> 90 \<longrightarrow> latin1_upper c = [c]"
    by (simp add: latin1_upper_AZ)
  have ne: "\<forall>c. latin1_upper c \<noteq> []" by (simp add: latin1_upper_nonempty)
  have idem: "\<forall>c. concat (map latin1_upper (latin1_upper c)) = latin1_upper c"
    by (simp add: latin1_upper_idem)
  have key: "codes ''Key'' \<noteq> []" by (simp add: codes_def)
  have up: "str_upper latin1_upper [71, 114, 252, 223, 101] = [71, 82, 220, 83, 83, 69]"
    by (simp add: str_upper_def latin1_upper_def)
  from cipher_round_trip [OF AZ ne idem, of "[71, 114, 252, 223, 101]" 3 "codes ''Key''"]
    AZ ne idem key
  show ?thesis unfolding up by blast
qed

text \<open>
  C9 (empty key). With an empty key the loop fails, by the division by the key length,
  exactly when the upper-cased text holds a letter \<open>A..Z\<close>; the first letter reads the
  key. A text whose upper case has no such letter never reads the key and comes back
  upper-cased. This holds for every upper-case mapping; the witness runs \<open>a1\<close> and the
  sharp s U+00DF, which fails because its upper case is \<open>SS\<close>.
\<close>

theorem vigenere_empty_key:
  "vigenere_cipher up text [] decrypt =
     (if \<exists>c\<in>set (str_upper up text). is_AZ c then Inl ZeroDivisionError
      else Inr (str_upper up text))"
  by (simp add: vigenere_cipher_def str_upper_def [of up "[]"] vigenere_loop_empty_key)

theorem vigenere_empty_key_witness:
  "(\<exists>c\<in>set (str_upper latin1_upper (codes ''a1'')). is_AZ c) \<and>
   vigenere_cipher latin1_upper (codes ''a1'') [] True = Inl ZeroDivisionError \<and>
   (\<exists>c\<in>set (str_upper latin1_upper [223]). is_AZ c) \<and>
   vigenere_cipher latin1_upper [223] [] False = Inl ZeroDivisionError"
proof -
  have letter: "\<exists>c\<in>set (str_upper latin1_upper (codes ''a1'')). is_AZ c"
    by (simp add: str_upper_def latin1_upper_def is_AZ_def ord_def codes_def)
  have sharp: "\<exists>c\<in>set (str_upper latin1_upper [223]). is_AZ c"
    by (simp add: str_upper_def latin1_upper_def is_AZ_def ord_def)
  from vigenere_empty_key [of latin1_upper "codes ''a1''" True]
    vigenere_empty_key [of latin1_upper "[223]" False] letter sharp
  show ?thesis by simp
qed

text \<open>
  A text with no letter and an empty key: the key is never read and nothing fails.
\<close>

theorem vigenere_empty_key_without_letter:
  "vigenere_cipher latin1_upper (codes ''12 3'') [] False = Inr (codes ''12 3'')"
  by (simp add: vigenere_cipher_def str_upper_def latin1_upper_def is_AZ_def ord_def codes_def)

section \<open>Correctness of the primality test\<close>

lemma sqrt_search_spec:
  "0 \<le> r \<Longrightarrow> r * r \<le> n \<Longrightarrow>
     r \<le> sqrt_search r n \<and> sqrt_search r n * sqrt_search r n \<le> n \<and>
     n < (sqrt_search r n + 1) * (sqrt_search r n + 1)"
proof (induction r n rule: sqrt_search.induct)
  case (1 r n)
  show ?case
  proof (cases "(r + 1) * (r + 1) \<le> n")
    case True
    then have eq: "sqrt_search r n = sqrt_search (r + 1) n"
      by (subst sqrt_search.simps) simp
    from "1.IH" [OF True] "1.prems" True show ?thesis unfolding eq by simp
  next
    case False
    then have eq: "sqrt_search r n = r"
      by (subst sqrt_search.simps) simp
    from False "1.prems" show ?thesis unfolding eq by simp
  qed
qed

lemma int_sqrt_spec:
  assumes "0 \<le> n"
  shows "0 \<le> int_sqrt n" "int_sqrt n * int_sqrt n \<le> n" "n < (int_sqrt n + 1) * (int_sqrt n + 1)"
  using sqrt_search_spec [of 0 n] assms by (simp_all add: int_sqrt_def)

lemma le_int_sqrt: 
  assumes "0 \<le> d" "d * d \<le> n"
  shows "d \<le> int_sqrt n"
proof (rule ccontr)
  assume "\<not> d \<le> int_sqrt n"
  then have lt: "int_sqrt n + 1 \<le> d" by simp
  have n0: "0 \<le> n" using assms by (metis order_trans zero_le_square)
  have "0 \<le> int_sqrt n + 1" using int_sqrt_spec(1) [OF n0] by simp
  then have "(int_sqrt n + 1) * (int_sqrt n + 1) \<le> d * d"
    using lt by (intro mult_mono) simp_all
  with int_sqrt_spec(3) [OF n0] assms(2) show False by linarith
qed

lemma is_prime_loop_iff:
  "is_prime_loop n i stop \<longleftrightarrow> (\<forall>k::nat. i + 2 * int k < stop \<longrightarrow> n mod (i + 2 * int k) \<noteq> 0)"
proof (induction n i stop rule: is_prime_loop.induct)
  case (1 n i stop)
  show ?case
  proof (cases "i < stop")
    case False
    then have "is_prime_loop n i stop" by (subst is_prime_loop.simps) simp
    moreover have "\<not> i + 2 * int k < stop" for k using False by simp
    ultimately show ?thesis by simp
  next
    case True
    show ?thesis
    proof (cases "n mod i = 0")
      case dv: True
      then have "\<not> is_prime_loop n i stop" using True by (subst is_prime_loop.simps) simp
      moreover have "\<exists>k::nat. i + 2 * int k < stop \<and> n mod (i + 2 * int k) = 0"
        by (rule exI [of _ 0]) (use True dv in simp)
      ultimately show ?thesis by auto
    next
      case ndv: False
      then have eq: "is_prime_loop n i stop = is_prime_loop n (i + 2) stop"
        using True by (subst is_prime_loop.simps) simp
      have "(\<forall>k::nat. i + 2 * int k < stop \<longrightarrow> n mod (i + 2 * int k) \<noteq> 0)
        \<longleftrightarrow> (\<forall>k::nat. i + 2 + 2 * int k < stop \<longrightarrow> n mod (i + 2 + 2 * int k) \<noteq> 0)"
        (is "?L \<longleftrightarrow> ?R")
      proof
        assume L: ?L
        show ?R
        proof (intro allI impI)
          fix k :: nat assume "i + 2 + 2 * int k < stop"
          then have "i + 2 * int (Suc k) < stop" by simp
          with L [rule_format, of "Suc k"] have "n mod (i + 2 * int (Suc k)) \<noteq> 0" by simp
          then show "n mod (i + 2 + 2 * int k) \<noteq> 0" by (simp add: algebra_simps)
        qed
      next
        assume R: ?R
        show ?L
        proof (intro allI impI)
          fix k :: nat assume lt: "i + 2 * int k < stop"
          show "n mod (i + 2 * int k) \<noteq> 0"
          proof (cases k)
            case 0
            then show ?thesis using ndv by simp
          next
            case (Suc j)
            with lt have "i + 2 + 2 * int j < stop" by simp
            with R [rule_format, of j] have "n mod (i + 2 + 2 * int j) \<noteq> 0" by simp
            then show ?thesis using Suc by (simp add: algebra_simps)
          qed
        qed
      qed
      with "1.IH" [OF True ndv] eq show ?thesis by simp
    qed
  qed
qed

lemma prime_int_is_prime:
  assumes "prime_int n"
  shows "is_prime n"
proof -
  from assms have n2: "2 \<le> n" and nd: "\<And>d. 2 \<le> d \<Longrightarrow> d < n \<Longrightarrow> \<not> d dvd n"
    by (auto simp: prime_int_def)
  show ?thesis
  proof (cases "n = 2")
    case True
    then show ?thesis by (simp add: is_prime_def)
  next
    case False
    with n2 have n3: "2 < n" by simp
    then have odd: "n mod 2 \<noteq> 0" using nd [of 2] by (simp add: mod_eq_0_iff_dvd)
    have "n mod (3 + 2 * int k) \<noteq> 0" if "3 + 2 * int k < int_sqrt n + 1" for k :: nat
    proof -
      define d where "d = 3 + 2 * int k"
      have d3: "3 \<le> d" by (simp add: d_def)
      have dle: "d \<le> int_sqrt n" using that by (simp add: d_def)
      then have "d * d \<le> int_sqrt n * int_sqrt n"
        using d3 by (intro mult_mono) simp_all
      also have "\<dots> \<le> n" using int_sqrt_spec(2) [of n] n2 by simp
      finally have sq: "d * d \<le> n" .
      have "d * 2 \<le> d * d" using d3 by (intro mult_left_mono) simp_all
      with sq d3 have "d < n" by linarith
      with nd [of d] d3 show ?thesis by (simp add: mod_eq_0_iff_dvd d_def)
    qed
    then have "is_prime_loop n 3 (int_sqrt n + 1)"
      unfolding is_prime_loop_iff by blast
    with n3 odd show ?thesis by (simp add: is_prime_def)
  qed
qed

lemma is_prime_prime_int:
  assumes "is_prime n"
  shows "prime_int n"
proof -
  from assms have n2: "2 \<le> n" by (simp add: is_prime_def split: if_splits)
  show ?thesis
  proof (cases "n = 2")
    case True
    then show ?thesis by (simp add: prime_int_def)
  next
    case False
    with assms n2 have odd: "n mod 2 \<noteq> 0" and loop: "is_prime_loop n 3 (int_sqrt n + 1)"
      by (simp_all add: is_prime_def split: if_splits)
    have small: "\<not> c dvd n" if c: "2 \<le> c" "c * c \<le> n" for c
    proof
      assume dv: "c dvd n"
      have "\<not> 2 dvd c" using odd dv by (meson dvd_trans mod_eq_0_iff_dvd)
      then have c3: "3 \<le> c" and codd: "c mod 2 = 1" using c(1) by presburger+
      define k where "k = nat ((c - 3) div 2)"
      have "0 \<le> (c - 3) div 2" using c3 by simp
      then have "int k = (c - 3) div 2" by (simp add: k_def)
      moreover have "c = 3 + 2 * ((c - 3) div 2)" using codd by presburger
      ultimately have ck: "c = 3 + 2 * int k" by simp
      have "c \<le> int_sqrt n" using c by (intro le_int_sqrt) simp_all
      then have "3 + 2 * int k < int_sqrt n + 1" using ck by simp
      with loop [unfolded is_prime_loop_iff, rule_format, of k] have "n mod c \<noteq> 0"
        using ck by simp
      with dv show False by (simp add: mod_eq_0_iff_dvd)
    qed
    have "\<not> d dvd n" if d: "2 \<le> d" "d < n" for d
    proof
      assume dv: "d dvd n"
      then obtain e where e: "n = d * e" by (auto elim: dvdE)
      have e2: "2 \<le> e"
      proof (rule ccontr)
        assume "\<not> 2 \<le> e"
        then have "e \<le> 1" by simp
        then have "d * e \<le> d * 1" using d(1) by (intro mult_left_mono) simp_all
        with e d(2) show False by simp
      qed
      show False
      proof (cases "d \<le> e")
        case True
        then have "d * d \<le> d * e" using d(1) by (intro mult_left_mono) simp_all
        with small [of d] d(1) e dv show False by simp
      next
        case False
        then have "e * e \<le> d * e" using e2 by (intro mult_right_mono) simp_all
        moreover have "e dvd n" using e by simp
        ultimately show False using small [of e] e2 e by simp
      qed
    qed
    with n2 show ?thesis by (simp add: prime_int_def)
  qed
qed

lemma is_prime_iff: "is_prime n \<longleftrightarrow> prime_int n"
  using is_prime_prime_int prime_int_is_prime by blast

section \<open>Fermat's little theorem for \<open>prime_int\<close>\<close>

lemma prime_int_coprime:
  assumes "prime_int p" "\<not> p dvd a"
  shows "coprime p a"
proof -
  from assms(1) have p2: "2 \<le> p" and nd: "\<And>d. 2 \<le> d \<Longrightarrow> d < p \<Longrightarrow> \<not> d dvd p"
    by (auto simp: prime_int_def)
  define g where "g = gcd p a"
  have g0: "0 \<le> g" and gp: "g dvd p" and ga: "g dvd a" by (simp_all add: g_def)
  have "g \<noteq> 0" using p2 by (auto simp: g_def)
  with g0 have g1: "1 \<le> g" by simp
  have "g \<le> p" using gp p2 by (intro zdvd_imp_le) simp_all
  moreover have "g \<noteq> p" using ga assms(2) by auto
  ultimately have "g < p" by simp
  with nd [of g] gp have "\<not> 2 \<le> g" by blast
  with g1 have "g = 1" by simp
  then show ?thesis by (simp add: g_def coprime_iff_gcd_eq_1)
qed

lemma prime_int_dvd_mult:
  assumes "prime_int p" "p dvd a * b"
  shows "p dvd a \<or> p dvd b"
proof (cases "p dvd a")
  case True
  then show ?thesis ..
next
  case False
  with assms(1) have "coprime p a" by (rule prime_int_coprime)
  with assms(2) have "p dvd b" by (simp add: coprime_dvd_mult_right_iff)
  then show ?thesis ..
qed

lemma prime_dvd_binomial:
  assumes "prime_int (int p)" "0 < k" "k < p"
  shows "int p dvd int (p choose k)"
proof -
  have "k * (p choose k) = p * ((p - 1) choose (k - 1))"
    using assms(2) by (rule times_binomial_minus1_eq)
  then have "int k * int (p choose k) = int p * int ((p - 1) choose (k - 1))"
    by (metis of_nat_mult)
  then have "int p dvd int k * int (p choose k)" by simp
  moreover have "\<not> int p dvd int k"
    using assms(2,3) by (simp add: nat_dvd_not_less)
  ultimately show ?thesis using prime_int_dvd_mult [OF assms(1)] by blast
qed

lemma sum_split_ends:
  fixes f :: "nat \<Rightarrow> int"
  assumes "0 < p"
  shows "(\<Sum>k\<le>p. f k) = f 0 + (\<Sum>k\<in>{1..<p}. f k) + f p"
proof -
  have set: "{..p} = insert 0 (insert p {1..<p})" using assms by auto
  show ?thesis unfolding set using assms by simp
qed

lemma freshman_dream:
  fixes a :: int
  assumes "prime_int (int p)"
  shows "int p dvd (a + 1) ^ p - a ^ p - 1"
proof -
  have p0: "0 < p" using assms by (simp add: prime_int_def)
  let ?f = "\<lambda>k. int (p choose k) * a ^ k"
  have "(a + 1) ^ p = (\<Sum>k\<le>p. of_nat (p choose k) * a ^ k * 1 ^ (p - k))"
    by (rule binomial_ring)
  also have "\<dots> = (\<Sum>k\<le>p. ?f k)" by simp
  also have "\<dots> = ?f 0 + (\<Sum>k\<in>{1..<p}. ?f k) + ?f p" using p0 by (rule sum_split_ends)
  finally have "(a + 1) ^ p - a ^ p - 1 = (\<Sum>k\<in>{1..<p}. ?f k)" by simp
  moreover have "int p dvd (\<Sum>k\<in>{1..<p}. ?f k)"
  proof (rule dvd_sum)
    fix k assume "k \<in> {1..<p}"
    then have "int p dvd int (p choose k)" using prime_dvd_binomial [OF assms] by simp
    then show "int p dvd ?f k" by simp
  qed
  ultimately show ?thesis by simp
qed

lemma fermat_nat:
  assumes "prime_int (int p)"
  shows "int p dvd (int a) ^ p - int a"
proof (induction a)
  case 0
  have "0 < p" using assms by (simp add: prime_int_def)
  then show ?case by (simp add: power_0_left)
next
  case (Suc a)
  have split: "(int a + 1) ^ p - (int a + 1)
      = ((int a + 1) ^ p - (int a) ^ p - 1) + ((int a) ^ p - int a)"
    by simp
  have "int p dvd (int a + 1) ^ p - (int a) ^ p - 1"
    using assms by (rule freshman_dream)
  then have "int p dvd (int a + 1) ^ p - (int a + 1)"
    unfolding split using Suc.IH by (rule dvd_add)
  moreover have "int (Suc a) = int a + 1" by simp
  ultimately show ?case by (simp only:)
qed

lemma fermat_int:
  assumes "prime_int p"
  shows "a ^ nat p mod p = a mod p"
proof -
  have p2: "2 \<le> p" using assms by (simp add: prime_int_def)
  then have pp: "int (nat p) = p" by simp
  define r where "r = nat (a mod p)"
  have r: "int r = a mod p" using p2 by (simp add: r_def)
  have "p dvd (int r) ^ nat p - int r"
    using fermat_nat [of "nat p" r] assms pp by simp
  then have "(int r) ^ nat p mod p = int r mod p"
    by (simp add: mod_eq_dvd_iff)
  then show ?thesis unfolding r by (simp add: power_mod)
qed

lemma fermat_little:
  assumes "prime_int p" "\<not> p dvd a"
  shows "a ^ nat (p - 1) mod p = 1"
proof -
  have p2: "2 \<le> p" using assms by (simp add: prime_int_def)
  then have np: "nat p = Suc (nat (p - 1))" by simp
  have "p dvd a ^ nat p - a" using fermat_int [OF assms(1), of a] by (simp add: mod_eq_dvd_iff)
  also have "a ^ nat p - a = a * (a ^ nat (p - 1) - 1)"
    unfolding np by (simp add: algebra_simps)
  finally have "p dvd a ^ nat (p - 1) - 1"
    using prime_int_dvd_mult [OF assms(1)] assms(2) by blast
  then have "a ^ nat (p - 1) mod p = 1 mod p" by (simp add: mod_eq_dvd_iff)
  then show ?thesis using p2 by simp
qed

section \<open>Claim about the Fermat verifier\<close>

lemma collect_steps_ok: "p \<noteq> 0 \<Longrightarrow> \<exists>steps. collect_steps a p is = Inr steps"
proof (induction "is")
  case Nil
  show ?case by simp
next
  case (Cons i rest)
  then obtain steps where "collect_steps a p rest = Inr steps" by blast
  moreover have "\<exists>r. mod_power a i p = Inr r" using Cons.prems by (simp add: mod_power_def)
  ultimately show ?case by auto
qed

lemma gcd_py_prime_not_dvd:
  assumes "prime_int p" "gcd_py a p = 1"
  shows "\<not> p dvd a"
proof
  assume dv: "p dvd a"
  have p2: "2 \<le> p" using assms(1) by (simp add: prime_int_def)
  then have "gcd_py a p = gcd a p" by (intro gcd_py_pos) simp
  also have "gcd a p = p" using dv p2 by (simp add: gcd.commute gcd_proj1_iff)
  finally show False using assms(2) p2 by simp
qed

text \<open>
  C8 (Fermat). For every prime \<open>p\<close> and every \<open>a\<close> whose \<^verbatim>\<open>gcd\<close> with \<open>p\<close> is \<open>1\<close>,
  \<^verbatim>\<open>fermat_little_theorem(a, p)\<close> returns, its \<^verbatim>\<open>result\<close> is \<open>1\<close>, and that is the
  value of \<^verbatim>\<open>mod_power(a, p - 1, p)\<close>. The witness runs \<^verbatim>\<open>(2, 7)\<close> and \<^verbatim>\<open>(3, 11)\<close>.
\<close>

theorem fermat_little_theorem_result:
  assumes "prime_int p" "gcd_py a p = 1"
  shows "\<exists>t. fermat_little_theorem a p = Inr t \<and> fermat_result t = 1 \<and>
             mod_power a (p - 1) p = Inr (fermat_result t)"
proof -
  have p2: "2 \<le> p" using assms(1) by (simp add: prime_int_def)
  have ip: "is_prime p" using assms(1) by (rule prime_int_is_prime)
  have nd: "\<not> p dvd a" using assms by (rule gcd_py_prime_not_dvd)
  have "mod_power a (p - 1) p = Inr (a ^ nat (p - 1) mod p)"
    using p2 by (intro mod_power_pos) simp_all
  then have pw: "mod_power a (p - 1) p = Inr 1"
    using fermat_little [OF assms(1) nd] by simp
  obtain steps where st: "collect_steps a p [1..min 10 (p - 1)] = Inr steps"
    using collect_steps_ok [of p a] p2 by fastforce
  have "fermat_little_theorem a p = Inr \<lparr>fermat_result = 1, fermat_steps = steps\<rparr>"
    using ip pw st by (simp add: fermat_little_theorem_def)
  with pw show ?thesis by simp
qed

theorem fermat_little_theorem_result_witness:
  "prime_int 7 \<and> gcd_py 2 7 = 1 \<and> (\<exists>t. fermat_little_theorem 2 7 = Inr t \<and> fermat_result t = 1) \<and>
   prime_int 11 \<and> gcd_py 3 11 = 1 \<and> (\<exists>t. fermat_little_theorem 3 11 = Inr t \<and> fermat_result t = 1)"
proof -
  have p7: "prime_int 7" and p11: "prime_int 11" by code_simp+
  have g7: "gcd_py 2 7 = 1" and g11: "gcd_py 3 11 = 1" by (simp_all add: gcd_py.simps)
  from fermat_little_theorem_result [OF p7 g7] fermat_little_theorem_result [OF p11 g11] p7 p11 g7 g11
  show ?thesis by blast
qed

section \<open>Properties of the RSA key generation\<close>

lemma choose_e_bounded:
  assumes "e \<le> t" "even (t - e)" "gcd_py t phi = 1"
  shows "\<exists>e'. choose_e e phi = Some e' \<and> e \<le> e' \<and> e' \<le> t \<and> gcd_py e' phi = 1"
  using assms(1,2)
proof (induction "nat (t - e)" arbitrary: e rule: less_induct)
  case less
  show ?case
  proof (cases "gcd_py e phi = 1")
    case True
    then have "choose_e e phi = Some e" by (subst choose_e.simps) simp
    with True less.prems show ?thesis by simp
  next
    case False
    then have "e \<noteq> t" using assms(3) by auto
    with less.prems have lt: "e + 2 \<le> t" by presburger
    have ev: "even (t - (e + 2))" using less.prems(2) by simp
    have "nat (t - (e + 2)) < nat (t - e)" using lt by simp
    from less.hyps [OF this lt ev] obtain e' where
      e': "choose_e (e + 2) phi = Some e'" "e + 2 \<le> e'" "e' \<le> t" "gcd_py e' phi = 1"
      by blast
    have "choose_e e phi = choose_e (e + 2) phi"
      using False by (subst choose_e.simps) simp
    with e' show ?thesis by auto
  qed
qed

lemma prime_int_odd:
  assumes "prime_int p" "p \<noteq> 2"
  shows "odd p" "3 \<le> p"
proof -
  from assms have p3: "2 < p" by (simp add: prime_int_def)
  with assms(1) show "odd p" by (auto simp: prime_int_def)
  with p3 show "3 \<le> p" by presburger
qed

lemma phi_cases:
  assumes "prime_int p" "prime_int q"
  shows "(p - 1) * (q - 1) = 1 \<or> (p - 1) * (q - 1) = 2 \<or>
         (4 \<le> (p - 1) * (q - 1) \<and> even ((p - 1) * (q - 1)))"
proof -
  have p2: "2 \<le> p" and q2: "2 \<le> q" using assms by (simp_all add: prime_int_def)
  show ?thesis
  proof (cases "p = 2")
    case True
    show ?thesis
    proof (cases "q = 2")
      case True
      with \<open>p = 2\<close> show ?thesis by simp
    next
      case False
      from prime_int_odd [OF assms(2) False] have "odd q" "3 \<le> q" .
      then have "q = 3 \<or> (4 \<le> q - 1 \<and> even (q - 1))" by presburger
      with \<open>p = 2\<close> show ?thesis by auto
    qed
  next
    case False
    from prime_int_odd [OF assms(1) False] have op: "odd p" "3 \<le> p" .
    define x where "x = (p - 1) * (q - 1)"
    have ev: "even x" using op(1) by (simp add: x_def)
    have "1 \<le> q - 1" using q2 by simp
    then have "(p - 1) * 1 \<le> x" unfolding x_def using op(2) by (intro mult_left_mono) simp_all
    moreover have "2 \<le> (p - 1) * 1" using op(2) by simp
    ultimately have "2 \<le> x" by (rule order_trans [rotated])
    with ev have "x = 2 \<or> (4 \<le> x \<and> even x)" by presburger
    then show ?thesis unfolding x_def by blast
  qed
qed

lemma choose_e_for_primes:
  assumes "prime_int p" "prime_int q"
  defines "phi \<equiv> (p - 1) * (q - 1)"
  shows "\<exists>e. choose_e (if 65537 \<ge> phi then 3 else 65537) phi = Some e \<and>
             3 \<le> e \<and> gcd_py e phi = 1 \<and> (2 < phi \<longrightarrow> e < phi)"
proof -
  let ?e0 = "if 65537 \<ge> phi then 3 else 65537 :: int"
  from phi_cases [OF assms(1,2)]
  consider "phi = 1" | "phi = 2" | "4 \<le> phi" "even phi" unfolding phi_def by blast
  then show ?thesis
  proof cases
    case 1
    then have "choose_e ?e0 phi = Some 3"
      by (simp add: choose_e.simps gcd_py.simps)
    with 1 show ?thesis by (simp add: gcd_py.simps)
  next
    case 2
    then have "choose_e ?e0 phi = Some 3"
      by (simp add: choose_e.simps gcd_py.simps)
    with 2 show ?thesis by (simp add: gcd_py.simps)
  next
    case 3
    have pos: "0 < phi" using 3(1) by simp
    have g: "gcd_py (phi - 1) phi = 1"
      unfolding gcd_py_pos [OF pos] by (simp add: coprime_iff_gcd_eq_1 [symmetric])
    have le: "?e0 \<le> phi - 1" using 3(1) by auto
    have ev: "even (phi - 1 - ?e0)" using 3(2) by auto
    from choose_e_bounded [OF le ev g] obtain e where
      "choose_e ?e0 phi = Some e" "?e0 \<le> e" "e \<le> phi - 1" "gcd_py e phi = 1"
      by blast
    moreover from this have "3 \<le> e" by (auto split: if_splits)
    ultimately show ?thesis by auto
  qed
qed

lemma generate_rsa_keys_primes:
  assumes "prime_int p" "prime_int q"
  shows "\<exists>k. generate_rsa_keys p q = Some (Inr k) \<and>
             key_n k = p * q \<and> key_phi k = (p - 1) * (q - 1) \<and>
             3 \<le> key_e k \<and> gcd_py (key_e k) (key_phi k) = 1 \<and>
             0 \<le> key_d k \<and> key_d k < key_phi k \<and>
             (key_e k * key_d k) mod key_phi k = 1 mod key_phi k \<and>
             (2 < key_phi k \<longrightarrow> key_e k < key_phi k)"
proof -
  define phi where "phi = (p - 1) * (q - 1)"
  have ip: "is_prime p" "is_prime q" using assms by (simp_all add: prime_int_is_prime)
  have pos: "0 < phi" using phi_cases [OF assms] by (auto simp: phi_def)
  from choose_e_for_primes [OF assms] obtain e where
    e: "choose_e (if 65537 \<ge> phi then 3 else 65537) phi = Some e"
       "3 \<le> e" "gcd_py e phi = 1" "2 < phi \<longrightarrow> e < phi"
    unfolding phi_def by blast
  have "gcd e phi = 1" using e(3) gcd_py_pos [OF pos, of e] by simp
  from mod_inverse_coprime [OF pos this] obtain d where
    d: "mod_inverse e phi = Inr d" "0 \<le> d" "d < phi" "(e * d) mod phi = 1 mod phi"
    by blast
  have "generate_rsa_keys p q = Some (Inr \<lparr>key_n = p * q, key_e = e, key_d = d, key_phi = phi\<rparr>)"
    using ip e(1) d(1) by (simp add: generate_rsa_keys_def phi_def [symmetric] Let_def)
  with e d show ?thesis by (simp add: phi_def)
qed

section \<open>Correctness of RSA for distinct primes\<close>

lemma power_cycle_prime:
  assumes "prime_int p"
  shows "a ^ Suc (j * nat (p - 1)) mod p = a mod p"
proof (cases "p dvd a")
  case True
  then have "p dvd a ^ Suc (j * nat (p - 1))" by simp
  with True show ?thesis by (simp add: mod_eq_0_iff_dvd)
next
  case False
  have one: "a ^ nat (p - 1) mod p = 1" using assms False by (rule fermat_little)
  have "a ^ (j * nat (p - 1)) mod p = ((a ^ nat (p - 1)) mod p) ^ j mod p"
    by (simp add: mult.commute [of j] power_mult power_mod)
  also have "\<dots> = 1 mod p" unfolding one by simp
  finally have "a ^ (j * nat (p - 1)) mod p = 1 mod p" .
  then have "(a * (a ^ (j * nat (p - 1)) mod p)) mod p = (a * (1 mod p)) mod p" by simp
  then show ?thesis by (simp add: mod_mult_right_eq)
qed

lemma distinct_primes_coprime:
  assumes "prime_int p" "prime_int q" "p \<noteq> q"
  shows "coprime p q"
proof (rule prime_int_coprime [OF assms(1)])
  show "\<not> p dvd q"
  proof
    assume dv: "p dvd q"
    have p2: "2 \<le> p" and q2: "2 \<le> q" using assms by (simp_all add: prime_int_def)
    have "p \<le> q" using dv q2 by (intro zdvd_imp_le) simp_all
    with assms(3) have "p < q" by simp
    with assms(2) p2 dv show False by (auto simp: prime_int_def)
  qed
qed

lemma rsa_core:
  assumes "prime_int p" "prime_int q" "p \<noteq> q"
  shows "a ^ Suc (j * nat (p - 1) * nat (q - 1)) mod (p * q) = a mod (p * q)"
proof -
  let ?x = "a ^ Suc (j * nat (p - 1) * nat (q - 1))"
  have swap: "j * nat (p - 1) * nat (q - 1) = (j * nat (q - 1)) * nat (p - 1)"
    by (simp add: ac_simps)
  have "?x mod p = a mod p"
    unfolding swap by (rule power_cycle_prime [OF assms(1)])
  then have dp: "p dvd ?x - a" by (simp add: mod_eq_dvd_iff)
  have "?x mod q = a mod q" using power_cycle_prime [OF assms(2), of a "j * nat (p - 1)"] by simp
  then have dq: "q dvd ?x - a" by (simp add: mod_eq_dvd_iff)
  have "coprime p q" using assms by (rule distinct_primes_coprime)
  with dp dq have "p * q dvd ?x - a" by (rule divides_mult)
  then show ?thesis by (simp add: mod_eq_dvd_iff)
qed

lemma generate_rsa_keys_Inr_primes:
  assumes "generate_rsa_keys p q = Some (Inr k)"
  shows "prime_int p" "prime_int q"
proof -
  have "is_prime p \<and> is_prime q"
  proof (rule ccontr)
    assume "\<not> (is_prime p \<and> is_prime q)"
    then have "generate_rsa_keys p q = Some (Inl InvalidPrimeInput)"
      by (auto simp: generate_rsa_keys_def)
    with assms show False by simp
  qed
  then show "prime_int p" "prime_int q" by (simp_all add: is_prime_prime_int)
qed

lemma rsa_round_trip_lemma:
  assumes gen: "generate_rsa_keys p q = Some (Inr k)" and neq: "p \<noteq> q"
    and m: "0 \<le> m" "m < key_n k"
  shows "\<exists>c. rsa_encrypt m (key_e k) (key_n k) = Inr c \<and>
             rsa_decrypt c (key_d k) (key_n k) = Inr m"
proof -
  have pr: "prime_int p" "prime_int q" using gen by (rule generate_rsa_keys_Inr_primes)+
  from generate_rsa_keys_primes [OF pr] gen have
    n: "key_n k = p * q" and phi: "key_phi k = (p - 1) * (q - 1)" and
    e3: "3 \<le> key_e k" and d0: "0 \<le> key_d k" and
    ed: "(key_e k * key_d k) mod key_phi k = 1 mod key_phi k"
    by auto
  define e d where "e = key_e k" and "d = key_d k"
  define P where "P = (p - 1) * (q - 1)"
  have p2: "2 \<le> p" and q2: "2 \<le> q" using pr by (simp_all add: prime_int_def)
  have P2: "2 \<le> P"
  proof -
    from phi_cases [OF pr] have "P = 1 \<or> 2 \<le> P" unfolding P_def by auto
    moreover have "P \<noteq> 1"
    proof
      assume "P = 1"
      then have "p = 2 \<and> q = 2 \<or> p = 0 \<and> q = 0"
        unfolding P_def by (auto simp: zmult_eq_1_iff)
      with p2 neq show False by auto
    qed
    ultimately show ?thesis by blast
  qed
  have edP: "(e * d) mod P = 1" using ed P2 by (simp add: e_def d_def phi P_def)
  have d1: "1 \<le> d"
  proof (rule ccontr)
    assume "\<not> 1 \<le> d"
    with d0 have "d = 0" by (simp add: d_def)
    with edP show False by simp
  qed
  have e1: "0 < e" using e3 by (simp add: e_def)
  define T where "T = (e * d) div P"
  have T0: "0 \<le> T" using e1 d1 P2 by (simp add: T_def pos_imp_zdiv_nonneg_iff)
  have "e * d = P * T + (e * d) mod P" unfolding T_def by simp
  then have edT: "e * d = 1 + T * P" using edP by (simp add: mult.commute)
  have "nat e * nat d = nat (e * d)" using e1 d1 by (simp add: nat_mult_distrib)
  also have "\<dots> = Suc (nat (T * P))" unfolding edT using T0 P2 by (simp add: nat_add_distrib)
  also have "nat (T * P) = nat T * nat (p - 1) * nat (q - 1)"
    unfolding P_def using T0 p2 q2 by (simp add: nat_mult_distrib mult.assoc)
  finally have expo: "nat e * nat d = Suc (nat T * nat (p - 1) * nat (q - 1))" .
  have n0: "p * q \<noteq> 0" using p2 q2 by simp
  have enc: "rsa_encrypt m e (p * q) = Inr (m ^ nat e mod (p * q))"
    unfolding rsa_encrypt_def using n0 e1 by (rule mod_power_pos)
  have "rsa_decrypt (m ^ nat e mod (p * q)) d (p * q)
      = Inr ((m ^ nat e mod (p * q)) ^ nat d mod (p * q))"
    unfolding rsa_decrypt_def using n0 d1 by (intro mod_power_pos) simp_all
  also have "(m ^ nat e mod (p * q)) ^ nat d mod (p * q) = m ^ (nat e * nat d) mod (p * q)"
    by (simp add: power_mod power_mult)
  also have "\<dots> = m mod (p * q)" unfolding expo using pr neq by (rule rsa_core)
  also have "\<dots> = m" using m n by simp
  finally have dec: "rsa_decrypt (m ^ nat e mod (p * q)) d (p * q) = Inr m" .
  from enc dec show ?thesis unfolding e_def d_def n by blast
qed

section \<open>Claims about RSA\<close>

lemma generate_rsa_keys_61_53:
  "generate_rsa_keys 61 53 = Some (Inr \<lparr>key_n = 3233, key_e = 7, key_d = 1783, key_phi = 3120\<rparr>)"
  by (simp add: generate_rsa_keys_def is_prime_def is_prime_loop.simps int_sqrt_def
      sqrt_search.simps choose_e.simps gcd_py.simps mod_inverse_def extended_gcd.simps)

lemma generate_rsa_keys_small:
  "generate_rsa_keys 2 3 = Some (Inr \<lparr>key_n = 6, key_e = 3, key_d = 1, key_phi = 2\<rparr>)"
  "generate_rsa_keys 2 2 = Some (Inr \<lparr>key_n = 4, key_e = 3, key_d = 0, key_phi = 1\<rparr>)"
  "generate_rsa_keys 3 3 = Some (Inr \<lparr>key_n = 9, key_e = 3, key_d = 3, key_phi = 4\<rparr>)"
  by (simp_all add: generate_rsa_keys_def is_prime_def is_prime_loop.simps int_sqrt_def
      sqrt_search.simps choose_e.simps gcd_py.simps mod_inverse_def extended_gcd.simps)

text \<open>
  C6 (key invariants). For all primes \<open>p\<close> and \<open>q\<close> the key generation returns, with
  \<open>n = p * q\<close>, \<open>phi = (p - 1) * (q - 1)\<close>, \<open>1 < e\<close>, \<open>gcd(e, phi) = 1\<close> and
  \<open>e * d mod phi = 1 mod phi\<close>; and whenever \<open>phi > 2\<close> also \<open>e < phi\<close> and
  \<open>e * d mod phi = 1\<close>. The search for \<open>e\<close> starts at \<open>3\<close> and only goes up, so for
  the pairs \<open>(2, 2)\<close>, \<open>(2, 3)\<close> and \<open>(3, 2)\<close>, where \<open>phi \<le> 2\<close>, the exponent is
  \<open>3 \<ge> phi\<close>: no \<open>e\<close> with \<open>1 < e < phi\<close> exists there.
\<close>

theorem generate_rsa_keys_invariants:
  assumes "prime_int p" "prime_int q"
  shows "\<exists>k. generate_rsa_keys p q = Some (Inr k) \<and>
             key_n k = p * q \<and> key_phi k = (p - 1) * (q - 1) \<and>
             1 < key_e k \<and> gcd_py (key_e k) (key_phi k) = 1 \<and>
             (key_e k * key_d k) mod key_phi k = 1 mod key_phi k \<and>
             (2 < (p - 1) * (q - 1) \<longrightarrow>
                key_e k < key_phi k \<and> (key_e k * key_d k) mod key_phi k = 1)"
proof -
  from generate_rsa_keys_primes [OF assms] obtain k where
    k: "generate_rsa_keys p q = Some (Inr k)" "key_n k = p * q"
       "key_phi k = (p - 1) * (q - 1)" "3 \<le> key_e k" "gcd_py (key_e k) (key_phi k) = 1"
       "(key_e k * key_d k) mod key_phi k = 1 mod key_phi k"
       "2 < key_phi k \<longrightarrow> key_e k < key_phi k"
    by blast
  have "(key_e k * key_d k) mod key_phi k = 1" if "2 < (p - 1) * (q - 1)"
    using that k(3,6) by simp
  with k show ?thesis by auto
qed

theorem generate_rsa_keys_invariants_witness:
  "prime_int 61 \<and> prime_int 53 \<and> 2 < (61 - 1) * (53 - 1 :: int) \<and>
   (\<exists>k. generate_rsa_keys 61 53 = Some (Inr k) \<and> key_n k = 61 * 53 \<and>
        key_phi k = (61 - 1) * (53 - 1) \<and> 1 < key_e k \<and> key_e k < key_phi k \<and>
        gcd_py (key_e k) (key_phi k) = 1 \<and> (key_e k * key_d k) mod key_phi k = 1)"
proof -
  have p: "prime_int 61" and q: "prime_int 53" by code_simp+
  have big: "2 < (61 - 1) * (53 - 1 :: int)" by simp
  from generate_rsa_keys_invariants [OF p q] big p q show ?thesis by blast
qed

text \<open>
  The primes \<open>2\<close> and \<open>3\<close>: the exponent \<open>3\<close> is not below \<open>phi = 2\<close>, so \<open>e < phi\<close>
  does not hold for all primes.
\<close>

theorem generate_rsa_keys_exponent_not_below_phi:
  "prime_int 2 \<and> prime_int 3 \<and>
   generate_rsa_keys 2 3 = Some (Inr \<lparr>key_n = 6, key_e = 3, key_d = 1, key_phi = 2\<rparr>) \<and>
   \<not> key_e \<lparr>key_n = 6, key_e = 3, key_d = 1, key_phi = 2\<rparr>
       < key_phi \<lparr>key_n = 6, key_e = 3, key_d = 1, key_phi = 2\<rparr>"
proof -
  have "prime_int 2" "prime_int 3" by code_simp+
  then show ?thesis by (simp add: generate_rsa_keys_small)
qed

text \<open>
  C2 (RSA round trip). For keys generated from two different primes and every message
  \<open>0 \<le> m < n\<close>, encryption succeeds and decryption of the ciphertext gives back \<open>m\<close>.
  The source does not check that \<open>p\<close> and \<open>q\<close> differ; for \<open>p = q = 3\<close> it returns
  \<open>n = 9\<close>, \<open>e = d = 3\<close>, and the message \<open>3\<close> encrypts to \<open>0\<close>, which decrypts to \<open>0\<close>.
  The witness is the example \<open>p = 61\<close>, \<open>q = 53\<close>, \<open>m = 42\<close>.
\<close>

theorem rsa_round_trip:
  assumes "generate_rsa_keys p q = Some (Inr k)" "p \<noteq> q" "0 \<le> m" "m < key_n k"
  shows "\<exists>c. rsa_encrypt m (key_e k) (key_n k) = Inr c \<and>
             rsa_decrypt c (key_d k) (key_n k) = Inr m"
  using assms by (rule rsa_round_trip_lemma)

theorem rsa_round_trip_witness:
  "generate_rsa_keys 61 53 = Some (Inr \<lparr>key_n = 3233, key_e = 7, key_d = 1783, key_phi = 3120\<rparr>) \<and>
   (61::int) \<noteq> 53 \<and> (0::int) \<le> 42 \<and> (42::int) < 3233 \<and>
   (\<exists>c. rsa_encrypt 42 7 3233 = Inr c \<and> rsa_decrypt c 1783 3233 = Inr 42)"
proof -
  have ne: "(61::int) \<noteq> 53" and m0: "(0::int) \<le> 42" by simp_all
  have m1: "42 < key_n \<lparr>key_n = 3233, key_e = 7, key_d = 1783, key_phi = 3120\<rparr>" by simp
  from rsa_round_trip [OF generate_rsa_keys_61_53 ne m0 m1] generate_rsa_keys_61_53
  show ?thesis by simp
qed

text \<open>
  Equal primes \<open>p = q = 3\<close>: the message \<open>3 < n = 9\<close> is not recovered, so the round trip
  does not hold for every pair accepted by \<^verbatim>\<open>generate_rsa_keys\<close>.
\<close>

theorem rsa_round_trip_fails_for_equal_primes:
  "generate_rsa_keys 3 3 = Some (Inr \<lparr>key_n = 9, key_e = 3, key_d = 3, key_phi = 4\<rparr>) \<and>
   (0::int) \<le> 3 \<and> (3::int) < 9 \<and>
   rsa_encrypt 3 3 9 = Inr 0 \<and> rsa_decrypt 0 3 9 = Inr 0"
  by (simp add: generate_rsa_keys_small rsa_encrypt_def rsa_decrypt_def mod_power_def
      mod_power_loop.simps)

section \<open>Properties of the Chinese Remainder loop\<close>

lemma foldl_mult_prod_list: "foldl (\<lambda>M m. M * m) a ms = a * prod_list (ms :: int list)"
  by (induction ms arbitrary: a) (simp_all add: mult.assoc)

lemma inverse_of_coprime:
  assumes "0 < m" "coprime a m"
  shows "mod_inverse a m = Inr (inverse_of a m)" "(a * inverse_of a m) mod m = 1 mod m"
proof -
  have "gcd a m = 1" using assms(2) by (simp add: coprime_iff_gcd_eq_1)
  from mod_inverse_coprime [OF assms(1) this] obtain x where
    x: "mod_inverse a m = Inr x" "(a * x) mod m = 1 mod m" by blast
  then have "inverse_of a m = x" by (simp add: inverse_of_def)
  with x show "mod_inverse a m = Inr (inverse_of a m)" "(a * inverse_of a m) mod m = 1 mod m"
    by simp_all
qed

lemma crt_loop_sum:
  assumes "length rs = length ms" "\<forall>m\<in>set ms. 0 < m \<and> coprime (M div m) m"
  shows "crt_loop M x rs ms =
           Inr (x + sum_list (map2 (\<lambda>r m. r * (M div m) * inverse_of (M div m) m) rs ms))"
  using assms
proof (induction rs ms arbitrary: x rule: list_induct2)
  case Nil
  show ?case by simp
next
  case (Cons r rs m ms)
  from Cons.prems have m: "0 < m" "coprime (M div m) m" and
    rest: "\<forall>m\<in>set ms. 0 < m \<and> coprime (M div m) m" by simp_all
  have inv: "mod_inverse (M div m) m = Inr (inverse_of (M div m) m)"
    using m by (rule inverse_of_coprime(1))
  show ?case
    using m(1) inv Cons.IH [OF rest, of "x + r * (M div m) * inverse_of (M div m) m"]
    by (simp add: add.assoc)
qed

lemma dvd_crt_sum:
  assumes "length rs = length ms" "\<forall>m\<in>set ms. c dvd M div m"
  shows "c dvd sum_list (map2 (\<lambda>r m. r * (M div m) * inverse_of (M div m) m) rs ms)"
  using assms
  by (induction rs ms rule: list_induct2) simp_all

lemma elem_dvd_prod_list: "x \<in> set xs \<Longrightarrow> x dvd prod_list (xs :: int list)"
  by (induction xs) auto

lemma prod_list_div_nth:
  fixes ms :: "int list"
  assumes "i < length ms" "ms ! i \<noteq> 0"
  shows "prod_list ms div ms ! i = prod_list (take i ms) * prod_list (drop (Suc i) ms)"
proof -
  have "prod_list ms = prod_list (take i ms @ ms ! i # drop (Suc i) ms)"
    using id_take_nth_drop [OF assms(1)] by simp
  also have "\<dots> = (prod_list (take i ms) * prod_list (drop (Suc i) ms)) * ms ! i"
    by (simp add: mult_ac)
  finally show ?thesis using assms(2) by simp
qed

lemma others_nth:
  assumes "i < length ms" "k \<in> set (take i ms) \<union> set (drop (Suc i) ms)"
  shows "\<exists>j<length ms. j \<noteq> i \<and> k = ms ! j"
  using assms(2)
proof
  assume "k \<in> set (take i ms)"
  then obtain j where "j < length (take i ms)" "k = take i ms ! j"
    by (auto simp: in_set_conv_nth)
  then have "j < length ms" "j \<noteq> i" "k = ms ! j" using assms(1) by simp_all
  then show ?thesis by blast
next
  assume "k \<in> set (drop (Suc i) ms)"
  then obtain j where "j < length (drop (Suc i) ms)" "k = drop (Suc i) ms ! j"
    by (auto simp: in_set_conv_nth)
  then have "Suc i + j < length ms" "Suc i + j \<noteq> i" "k = ms ! (Suc i + j)"
    using assms(1) by simp_all
  then show ?thesis by blast
qed

lemma nth_in_others:
  assumes "i < length ms" "j < length ms" "j \<noteq> i"
  shows "ms ! j \<in> set (take i ms) \<union> set (drop (Suc i) ms)"
proof (cases "j < i")
  case True
  then have "ms ! j = take i ms ! j" "j < length (take i ms)" using assms(1) by simp_all
  then show ?thesis by (metis UnI1 nth_mem)
next
  case False
  with assms(3) have "Suc i \<le> j" by simp
  then obtain d where d: "j = Suc i + d" by (auto simp: le_iff_add)
  then have "ms ! j = drop (Suc i) ms ! d" "d < length (drop (Suc i) ms)"
    using assms(2) by simp_all
  then show ?thesis by (metis UnI2 nth_mem)
qed

lemma pairwise_coprime_nth:
  assumes "pairwise_coprime ms" "\<forall>m\<in>set ms. 0 < m" "i < length ms" "j < length ms" "i \<noteq> j"
  shows "coprime (ms ! i) (ms ! j)"
  using assms
proof (induction ms arbitrary: i j)
  case Nil
  then show ?case by simp
next
  case (Cons m ms)
  have head: "coprime k m" if "k \<in> set ms" for k
  proof -
    have "gcd_py k m = 1" using Cons.prems(1) that by simp
    moreover have "0 < m" using Cons.prems(2) by simp
    ultimately show ?thesis by (simp add: gcd_py_pos coprime_iff_gcd_eq_1)
  qed
  show ?case
  proof (cases i)
    case 0
    with Cons.prems obtain j' where j': "j = Suc j'" "j' < length ms" by (cases j) auto
    then have "coprime (ms ! j') m" by (intro head) simp
    with 0 j' show ?thesis by (simp add: coprime_commute)
  next
    case (Suc i')
    show ?thesis
    proof (cases j)
      case 0
      have "coprime (ms ! i') m" using Suc Cons.prems(3) by (intro head) simp
      with 0 Suc show ?thesis by simp
    next
      case (Suc j')
      with \<open>i = Suc i'\<close> Cons.prems Cons.IH [of i' j'] show ?thesis by simp
    qed
  qed
qed

lemma crt_others_coprime:
  assumes "pairwise_coprime ms" "\<forall>m\<in>set ms. 0 < m" "i < length ms"
  shows "coprime (prod_list ms div ms ! i) (ms ! i)"
proof -
  have "0 < ms ! i" using assms(2,3) by simp
  then have nz: "ms ! i \<noteq> 0" by simp
  have "coprime k (ms ! i)" if "k \<in> set (take i ms) \<union> set (drop (Suc i) ms)" for k
  proof -
    from others_nth [OF assms(3) that] obtain j where "j < length ms" "j \<noteq> i" "k = ms ! j"
      by blast
    then show ?thesis using pairwise_coprime_nth [OF assms(1,2), of j i] assms(3) by simp
  qed
  then have "coprime (prod_list (take i ms)) (ms ! i)"
    "coprime (prod_list (drop (Suc i) ms)) (ms ! i)"
    by (simp_all add: prod_list_coprime_left)
  then show ?thesis unfolding prod_list_div_nth [OF assms(3) nz] by simp
qed

lemma crt_other_dvd:
  fixes ms :: "int list"
  assumes "\<forall>m\<in>set ms. 0 < m" "i < length ms" "j < length ms" "j \<noteq> i"
  shows "ms ! i dvd prod_list ms div ms ! j"
proof -
  have "0 < ms ! j" using assms(1,3) by simp
  then have nz: "ms ! j \<noteq> 0" by simp
  from nth_in_others [OF assms(3,2)] assms(4)
  have "ms ! i \<in> set (take j ms) \<union> set (drop (Suc j) ms)" by simp
  then have "ms ! i dvd prod_list (take j ms) \<or> ms ! i dvd prod_list (drop (Suc j) ms)"
    using elem_dvd_prod_list by blast
  then show ?thesis unfolding prod_list_div_nth [OF assms(3) nz] by auto
qed

lemma crt_sum_mod:
  assumes len: "length rs = length ms" and pc: "pairwise_coprime ms"
    and pos: "\<forall>m\<in>set ms. 0 < m" and i: "i < length ms"
  defines "M \<equiv> prod_list ms"
  defines "S \<equiv> sum_list (map2 (\<lambda>r m. r * (M div m) * inverse_of (M div m) m) rs ms)"
  shows "S mod ms ! i = rs ! i mod ms ! i"
proof -
  let ?t = "\<lambda>r m. r * (M div m) * inverse_of (M div m) m"
  let ?m = "ms ! i"
  have ir: "i < length rs" using len i by simp
  have mpos: "0 < ?m" using pos i by simp
  have split: "S = sum_list (map2 ?t (take i rs) (take i ms)) + ?t (rs ! i) ?m
                 + sum_list (map2 ?t (drop (Suc i) rs) (drop (Suc i) ms))"
  proof -
    have "zip rs ms = zip (take i rs @ rs ! i # drop (Suc i) rs) (take i ms @ ?m # drop (Suc i) ms)"
      using id_take_nth_drop [OF i] id_take_nth_drop [OF ir] by simp
    also have "\<dots> = zip (take i rs) (take i ms) @ (rs ! i, ?m) # zip (drop (Suc i) rs) (drop (Suc i) ms)"
      using len by (subst zip_append) simp_all
    finally show ?thesis unfolding S_def by simp
  qed
  have other: "?m dvd M div k" if "k \<in> set (take i ms) \<union> set (drop (Suc i) ms)" for k
  proof -
    from others_nth [OF i that] obtain j where "j < length ms" "j \<noteq> i" "k = ms ! j" by blast
    then show ?thesis unfolding M_def using crt_other_dvd [OF pos i] by simp
  qed
  have d1: "?m dvd sum_list (map2 ?t (take i rs) (take i ms))"
    using len other by (intro dvd_crt_sum) simp_all
  have d2: "?m dvd sum_list (map2 ?t (drop (Suc i) rs) (drop (Suc i) ms))"
    using len other by (intro dvd_crt_sum) simp_all
  have "?m dvd S - ?t (rs ! i) ?m"
    unfolding split using d1 d2 by simp
  then have "S mod ?m = ?t (rs ! i) ?m mod ?m" by (simp add: mod_eq_dvd_iff)
  also have "?t (rs ! i) ?m = rs ! i * ((M div ?m) * inverse_of (M div ?m) ?m)"
    by (simp add: mult.assoc)
  also have "\<dots> mod ?m = (rs ! i * (((M div ?m) * inverse_of (M div ?m) ?m) mod ?m)) mod ?m"
    by (simp add: mod_mult_right_eq)
  also have "((M div ?m) * inverse_of (M div ?m) ?m) mod ?m = 1 mod ?m"
    unfolding M_def using mpos crt_others_coprime [OF pc pos i] by (rule inverse_of_coprime(2))
  also have "(rs ! i * (1 mod ?m)) mod ?m = rs ! i mod ?m"
    by (simp add: mod_mult_right_eq)
  finally show ?thesis .
qed

lemma pairwise_coprime_prod_dvd:
  assumes "pairwise_coprime ms" "\<forall>m\<in>set ms. 0 < m" "\<forall>m\<in>set ms. m dvd z"
  shows "prod_list ms dvd z"
  using assms
proof (induction ms)
  case Nil
  show ?case by simp
next
  case (Cons m ms)
  have "coprime k m" if "k \<in> set ms" for k
  proof -
    have "gcd_py k m = 1" using Cons.prems(1) that by simp
    moreover have "0 < m" using Cons.prems(2) by simp
    ultimately show ?thesis by (simp add: gcd_py_pos coprime_iff_gcd_eq_1)
  qed
  then have "coprime m (prod_list ms)"
    by (intro prod_list_coprime_right) (simp add: coprime_commute)
  moreover have "m dvd z" using Cons.prems(3) by simp
  moreover have "prod_list ms dvd z" using Cons by simp
  ultimately show ?case by (simp add: divides_mult)
qed

lemma prod_list_pos: "\<forall>m\<in>set ms. 0 < m \<Longrightarrow> 0 < prod_list (ms :: int list)"
  by (induction ms) simp_all

lemma chinese_remainder_theorem_lemma:
  assumes len: "length remainders = length moduli"
    and pos: "\<forall>m\<in>set moduli. 0 < m" and pc: "pairwise_coprime moduli"
  shows "\<exists>x. chinese_remainder_theorem remainders moduli = Inr x \<and>
             crt_solve remainders moduli = Inr (x, prod_list moduli) \<and>
             0 \<le> x \<and> x < prod_list moduli \<and>
             (\<forall>i<length moduli. x mod moduli ! i = remainders ! i mod moduli ! i) \<and>
             (\<forall>y. 0 \<le> y \<and> y < prod_list moduli \<and>
                  (\<forall>i<length moduli. y mod moduli ! i = remainders ! i mod moduli ! i)
                  \<longrightarrow> y = x)"
proof -
  define M where "M = prod_list moduli"
  define S where
    "S = sum_list (map2 (\<lambda>r m. r * (M div m) * inverse_of (M div m) m) remainders moduli)"
  have Mpos: "0 < M" unfolding M_def using pos by (rule prod_list_pos)
  have fold: "foldl (\<lambda>M m. M * m) 1 moduli = M"
    by (simp add: foldl_mult_prod_list M_def)
  have cop: "\<forall>m\<in>set moduli. 0 < m \<and> coprime (M div m) m"
  proof
    fix m assume "m \<in> set moduli"
    then obtain i where "i < length moduli" "m = moduli ! i" by (auto simp: in_set_conv_nth)
    then show "0 < m \<and> coprime (M div m) m"
      unfolding M_def using crt_others_coprime [OF pc pos] pos by simp
  qed
  have loop: "crt_loop M 0 remainders moduli = Inr S"
    using crt_loop_sum [OF len cop, of 0] by (simp add: S_def)
  have crt: "chinese_remainder_theorem remainders moduli = Inr (S mod M)"
    using len loop Mpos by (simp add: chinese_remainder_theorem_def fold)
  then have solve: "crt_solve remainders moduli = Inr (S mod M, M)"
    by (simp add: crt_solve_def fold)
  have range: "0 \<le> S mod M" "S mod M < M" using Mpos by simp_all
  have cong: "(S mod M) mod moduli ! i = remainders ! i mod moduli ! i"
    if i: "i < length moduli" for i
  proof -
    have "moduli ! i dvd M" unfolding M_def using i by (simp add: elem_dvd_prod_list)
    then have "(S mod M) mod moduli ! i = S mod moduli ! i" by (rule mod_mod_cancel)
    also have "\<dots> = remainders ! i mod moduli ! i"
      unfolding S_def M_def using len pc pos i by (rule crt_sum_mod)
    finally show ?thesis .
  qed
  have uniq: "y = S mod M"
    if y: "0 \<le> y" "y < M" "\<forall>i<length moduli. y mod moduli ! i = remainders ! i mod moduli ! i"
    for y
  proof -
    have "\<forall>m\<in>set moduli. m dvd y - S mod M"
    proof
      fix m assume "m \<in> set moduli"
      then obtain i where i: "i < length moduli" "m = moduli ! i"
        by (auto simp: in_set_conv_nth)
      then have "y mod m = (S mod M) mod m" using y(3) cong by simp
      then show "m dvd y - S mod M" by (simp add: mod_eq_dvd_iff)
    qed
    with pc pos have "M dvd y - S mod M" unfolding M_def by (rule pairwise_coprime_prod_dvd)
    moreover have "\<bar>y - S mod M\<bar> < M" using y(1,2) range by linarith
    ultimately have "y - S mod M = 0" by (metis dvd_imp_le_int not_less abs_of_pos Mpos)
    then show ?thesis by simp
  qed
  from crt solve range cong uniq show ?thesis unfolding M_def by blast
qed

section \<open>Claim about the Chinese Remainder Theorem\<close>

lemma crt_example:
  "chinese_remainder_theorem [2, 3, 2] [3, 5, 7] = Inr 23"
  "crt_solve [2, 3, 2] [3, 5, 7] = Inr (23, 105)"
  by (simp_all add: crt_solve_def chinese_remainder_theorem_def mod_inverse_def
      extended_gcd.simps)

text \<open>
  C3 (Chinese Remainder Theorem). For lists of the same length (empty or not), with
  positive moduli that are coprime in pairs, \<^verbatim>\<open>chinese_remainder_theorem\<close> returns an
  \<open>x\<close> with \<open>0 \<le> x < M\<close>, where \<open>M\<close> is the product of the moduli, congruent to
  \<^verbatim>\<open>remainders[i]\<close> modulo \<^verbatim>\<open>moduli[i]\<close> at every index, and no other number of
  \<open>[0, M)\<close> has these residues; the endpoint returns \<open>x\<close> together with \<open>M\<close>. The
  witness is the example \<^verbatim>\<open>[2,3,2]\<close>, \<^verbatim>\<open>[3,5,7]\<close> with result \<open>23\<close> and modulus \<open>105\<close>.
\<close>

theorem chinese_remainder_theorem_correct:
  assumes "length remainders = length moduli"
    and "\<forall>m\<in>set moduli. 0 < m" and "pairwise_coprime moduli"
  shows "\<exists>x. chinese_remainder_theorem remainders moduli = Inr x \<and>
             crt_solve remainders moduli = Inr (x, prod_list moduli) \<and>
             0 \<le> x \<and> x < prod_list moduli \<and>
             (\<forall>i<length moduli. x mod moduli ! i = remainders ! i mod moduli ! i) \<and>
             (\<forall>y. 0 \<le> y \<and> y < prod_list moduli \<and>
                  (\<forall>i<length moduli. y mod moduli ! i = remainders ! i mod moduli ! i)
                  \<longrightarrow> y = x)"
  using assms by (rule chinese_remainder_theorem_lemma)

theorem chinese_remainder_theorem_correct_witness:
  "length [2, 3, 2 :: int] = length [3, 5, 7 :: int] \<and>
   (0::int) < 3 \<and> (0::int) < 5 \<and> (0::int) < 7 \<and> pairwise_coprime [3, 5, 7] \<and>
   chinese_remainder_theorem [2, 3, 2] [3, 5, 7] = Inr 23 \<and>
   crt_solve [2, 3, 2] [3, 5, 7] = Inr (23, 105) \<and>
   (23::int) mod 3 = 2 mod 3 \<and> (23::int) mod 5 = 3 mod 5 \<and> (23::int) mod 7 = 2 mod 7 \<and>
   \<not> (\<exists>y::int. 0 \<le> y \<and> y < 105 \<and> y \<noteq> 23 \<and>
          y mod 3 = 2 mod 3 \<and> y mod 5 = 3 mod 5 \<and> y mod 7 = 2 mod 7)"
proof -
  have len: "length [2, 3, 2 :: int] = length [3, 5, 7 :: int]" by simp
  have pos: "\<forall>m\<in>set [3, 5, 7 :: int]. 0 < m" by simp
  have pc: "pairwise_coprime [3, 5, 7]" by (simp add: gcd_py.simps)
  from chinese_remainder_theorem_correct [OF len pos pc] obtain x where
    x: "chinese_remainder_theorem [2, 3, 2] [3, 5, 7] = Inr x"
       "crt_solve [2, 3, 2] [3, 5, 7] = Inr (x, prod_list [3, 5, 7])"
       "\<forall>i<length [3, 5, 7 :: int]. x mod [3, 5, 7] ! i = [2, 3, 2] ! i mod [3, 5, 7] ! i"
       "\<forall>y. 0 \<le> y \<and> y < prod_list [3, 5, 7] \<and>
            (\<forall>i<length [3, 5, 7 :: int]. y mod [3, 5, 7] ! i = [2, 3, 2] ! i mod [3, 5, 7] ! i)
            \<longrightarrow> y = x"
    by blast
  have x23: "x = 23" using x(1) by (simp add: crt_example(1))
  have all3: "(\<forall>i<length [3, 5, 7 :: int]. P i) \<longleftrightarrow> P 0 \<and> P 1 \<and> P 2" for P
    by (auto simp: less_Suc_eq numeral_2_eq_2 numeral_3_eq_3)
  have uniq: "\<not> (\<exists>y::int. 0 \<le> y \<and> y < 105 \<and> y \<noteq> 23 \<and>
          y mod 3 = 2 mod 3 \<and> y mod 5 = 3 mod 5 \<and> y mod 7 = 2 mod 7)"
  proof
    assume "\<exists>y::int. 0 \<le> y \<and> y < 105 \<and> y \<noteq> 23 \<and>
          y mod 3 = 2 mod 3 \<and> y mod 5 = 3 mod 5 \<and> y mod 7 = 2 mod 7"
    then obtain y :: int where y: "0 \<le> y" "y < 105" "y \<noteq> 23"
      "y mod 3 = 2 mod 3" "y mod 5 = 3 mod 5" "y mod 7 = 2 mod 7" by blast
    have "y = x" using x(4) [unfolded all3, rule_format, of y] y by simp
    with y(3) x23 show False by simp
  qed
  from len pc x(1,2) uniq show ?thesis unfolding x23 by simp
qed

end
